theory Spec2Isabelle
  imports Complex_Main "HOL-Library.Log_Nat"
begin

section \<open>Go values used by package planar\<close>

subsection \<open>float64\<close>

text \<open>
  Go's \<^verbatim>\<open>float64\<close> is IEEE 754 binary64. A value is a finite number (\<open>Fin 0\<close> is
  positive zero), negative zero, an infinity or a NaN (the payload of a NaN is never
  observed by this package). Every binary64 value is a value of this type, and the
  operations are defined on all values of the type. An arithmetic operation computes
  the exact result and rounds it to nearest, ties to even, with 53 bits of precision,
  exponents from -1022 to 1023, gradual underflow and overflow to infinity. Each Go
  operator is rounded on its own, as on amd64 (no fused multiply-add).
\<close>

datatype float64 = Fin real | NegZero | PosInf | NegInf | NaN

fun fval :: "float64 \<Rightarrow> real" where
  "fval (Fin q) = q"
| "fval _ = 0"

fun signbit :: "float64 \<Rightarrow> bool" where
  "signbit (Fin q) = (q < 0)"
| "signbit NegZero = True"
| "signbit NegInf = True"
| "signbit _ = False"

fun isInf :: "float64 \<Rightarrow> bool" where
  "isInf PosInf = True"
| "isInf NegInf = True"
| "isInf _ = False"

definition fzero :: "bool \<Rightarrow> float64" where
  "fzero neg = (if neg then NegZero else Fin 0)"

definition finf :: "bool \<Rightarrow> float64" where
  "finf neg = (if neg then NegInf else PosInf)"

text \<open>\<open>ilog2 a\<close> is the exponent of a positive number: \<open>2 powi ilog2 a \<le> a < 2 powi (ilog2 a + 1)\<close>.\<close>

definition ilog2 :: "real \<Rightarrow> int" where
  "ilog2 a =
     (if 1 \<le> a then bitlen \<lfloor>a\<rfloor> - 1
      else let k = bitlen \<lfloor>1 / a\<rfloor> - 1
           in if a * 2 powi k = 1 then - k else - k - 1)"

text \<open>Rounding to the nearest integer, ties to even.\<close>

definition rne :: "real \<Rightarrow> int" where
  "rne m =
     (let n = \<lfloor>m\<rfloor>; f = m - of_int n
      in if f < 1 / 2 then n
         else if 1 / 2 < f then n + 1
         else if even n then n else n + 1)"

text \<open>
  \<open>fround neg q\<close> rounds the exact result \<open>q\<close> to binary64; \<open>neg\<close> is the sign of the
  result when \<open>q\<close> is exactly zero.
\<close>

definition fround :: "bool \<Rightarrow> real \<Rightarrow> float64" where
  "fround neg q =
     (if q = 0 then fzero neg
      else let a = \<bar>q\<bar>;
               e = max (ilog2 a) (- 1022);
               u = 2 powi (e - 52);
               r = of_int (rne (a / u)) * u
           in if 2 powi 1024 \<le> r then finf (q < 0)
              else if r = 0 then fzero (q < 0)
              else Fin (if q < 0 then - r else r))"

fun fneg :: "float64 \<Rightarrow> float64" where
  "fneg (Fin q) = (if q = 0 then NegZero else Fin (- q))"
| "fneg NegZero = Fin 0"
| "fneg PosInf = NegInf"
| "fneg NegInf = PosInf"
| "fneg NaN = NaN"

definition fadd :: "float64 \<Rightarrow> float64 \<Rightarrow> float64" where
  "fadd x y =
     (if x = NaN \<or> y = NaN then NaN
      else if isInf x then (if isInf y \<and> x \<noteq> y then NaN else x)
      else if isInf y then y
      else fround (signbit x \<and> signbit y) (fval x + fval y))"

definition fsub :: "float64 \<Rightarrow> float64 \<Rightarrow> float64" where
  "fsub x y = fadd x (fneg y)"

definition fmul :: "float64 \<Rightarrow> float64 \<Rightarrow> float64" where
  "fmul x y =
     (if x = NaN \<or> y = NaN then NaN
      else let neg = (signbit x \<noteq> signbit y)
           in if isInf x then (if \<not> isInf y \<and> fval y = 0 then NaN else finf neg)
              else if isInf y then (if fval x = 0 then NaN else finf neg)
              else fround neg (fval x * fval y))"

definition fdiv :: "float64 \<Rightarrow> float64 \<Rightarrow> float64" where
  "fdiv x y =
     (if x = NaN \<or> y = NaN then NaN
      else let neg = (signbit x \<noteq> signbit y)
           in if isInf x then (if isInf y then NaN else finf neg)
              else if isInf y then fzero neg
              else if fval y = 0 then (if fval x = 0 then NaN else finf neg)
              else fround neg (fval x / fval y))"

text \<open>\<^verbatim>\<open>math.Abs\<close> clears the sign.\<close>

fun fabs :: "float64 \<Rightarrow> float64" where
  "fabs (Fin q) = Fin \<bar>q\<bar>"
| "fabs NegZero = Fin 0"
| "fabs PosInf = PosInf"
| "fabs NegInf = PosInf"
| "fabs NaN = NaN"

text \<open>
  The comparison operators. A comparison with a NaN is false, and the two zeros are
  equal. \<open>fclass\<close> orders the infinities around the finite values.
\<close>

fun fclass :: "float64 \<Rightarrow> int" where
  "fclass NegInf = - 1"
| "fclass PosInf = 1"
| "fclass _ = 0"

definition flt :: "float64 \<Rightarrow> float64 \<Rightarrow> bool" where
  "flt x y = (x \<noteq> NaN \<and> y \<noteq> NaN \<and>
              (fclass x < fclass y \<or> (fclass x = fclass y \<and> fval x < fval y)))"

definition feq :: "float64 \<Rightarrow> float64 \<Rightarrow> bool" where
  "feq x y = (x \<noteq> NaN \<and> y \<noteq> NaN \<and> fclass x = fclass y \<and> fval x = fval y)"

definition fle :: "float64 \<Rightarrow> float64 \<Rightarrow> bool" where
  "fle x y = (flt x y \<or> feq x y)"

definition fgt :: "float64 \<Rightarrow> float64 \<Rightarrow> bool" where
  "fgt x y = flt y x"

definition fge :: "float64 \<Rightarrow> float64 \<Rightarrow> bool" where
  "fge x y = fle y x"

text \<open>
  \<^verbatim>\<open>math.Nextafter(x, math.Inf(1))\<close>: the next representable value after \<open>x\<close> towards
  positive infinity. Following the standard library: NaN for a NaN, \<open>x\<close> itself when
  \<open>x\<close> is positive infinity, the smallest positive subnormal for either zero, and
  otherwise the neighbour of \<open>x\<close> in the binary64 grid (negative zero after the largest
  negative subnormal, positive infinity after the largest finite value).
\<close>

definition maxFloat64 :: real where
  "maxFloat64 = 2 powi 1024 - 2 powi 971"

definition nextUp :: "float64 \<Rightarrow> float64" where
  "nextUp x =
     (case x of
        NaN \<Rightarrow> NaN
      | PosInf \<Rightarrow> PosInf
      | NegInf \<Rightarrow> Fin (- maxFloat64)
      | NegZero \<Rightarrow> Fin (2 powi (- 1074))
      | Fin q \<Rightarrow>
          if q = 0 then Fin (2 powi (- 1074))
          else if 0 < q then
            (let e = max (ilog2 q) (- 1022); r = q + 2 powi (e - 52)
             in if 2 powi 1024 \<le> r then PosInf else Fin r)
          else
            (let a = - q; e = max (ilog2 a) (- 1022);
                 d = (if a = 2 powi e \<and> - 1022 < e then 2 powi (e - 53) else 2 powi (e - 52));
                 r = q + d
             in if r = 0 then NegZero else Fin r))"

subsection \<open>Points, rings, polygons and panics\<close>

text \<open>
  A \<^verbatim>\<open>Point\<close> is an array of two floats, a value that is copied when it is passed or
  assigned; a \<^verbatim>\<open>LineString\<close> is a slice of points and a \<^verbatim>\<open>Polygon\<close> a slice of
  line strings (\<^verbatim>\<open>type Polygon []LineString\<close>). The first ring is the outer ring, the
  others are the holes. An index expression outside the slice panics.
\<close>

type_synonym Point = "float64 \<times> float64"
type_synonym LineString = "Point list"
type_synonym Polygon = "LineString list"

datatype panic = IndexOutOfRange

definition idx :: "'a list \<Rightarrow> int \<Rightarrow> panic + 'a" where
  "idx xs i = (if 0 \<le> i \<and> i < int (length xs) then Inr (xs ! nat i) else Inl IndexOutOfRange)"

section \<open>planar/polygon.go\<close>

subsection \<open>rayIntersect\<close>

text \<open>
  The end of \<^verbatim>\<open>rayIntersect\<close>, after the comparisons with the end points: \<open>p\<close> is the
  local point as they left it, \<open>s\<close> and \<open>e\<close> the end points after the exchange. The
  comparison of the slopes \<^verbatim>\<open>rs\<close> and \<^verbatim>\<open>ds\<close> comes last.
\<close>

definition slopeCompare :: "Point \<Rightarrow> Point \<Rightarrow> Point \<Rightarrow> bool \<times> bool" where
  "slopeCompare p s e =
     (let rs = fdiv (fsub (snd p) (snd s)) (fsub (fst p) (fst s));
          ds = fdiv (fsub (snd e) (snd s)) (fsub (fst e) (fst s))
      in if feq rs ds then (False, True) else (fle rs ds, False))"

definition rayCross :: "Point \<Rightarrow> Point \<Rightarrow> Point \<Rightarrow> bool \<times> bool" where
  "rayCross p s e =
     (if flt (fst p) (fst s) \<or> fgt (fst p) (fst e) then (False, False)
      else if fgt (snd s) (snd e) then
        (if fgt (snd p) (snd s) then (False, False)
         else if flt (snd p) (snd e) then (True, False)
         else slopeCompare p s e)
      else
        (if fgt (snd p) (snd e) then (False, False)
         else if flt (snd p) (snd s) then (True, False)
         else slopeCompare p s e))"

text \<open>
  \<^verbatim>\<open>rayIntersect(p, s, e)\<close> returns \<^verbatim>\<open>(intersects, on)\<close>. The parameters are copies
  of the caller's points: the exchange of \<open>s\<close> and \<open>e\<close> and the assignment to
  \<^verbatim>\<open>p[0]\<close> change the copies, which the rest of the function reads.
\<close>

definition rayIntersect :: "Point \<Rightarrow> Point \<Rightarrow> Point \<Rightarrow> bool \<times> bool" where
  "rayIntersect p s0 e0 =
     (let (s, e) = (if fgt (fst s0) (fst e0) then (e0, s0) else (s0, e0))
      in if feq (fst p) (fst s) then
           (if feq (snd p) (snd s) then (False, True)
            else if feq (fst s) (fst e) \<and>
                    fgt (snd s) (snd e) \<and> fge (snd s) (snd p) \<and> fge (snd p) (snd e)
                 then (False, True)
            else if feq (fst s) (fst e) \<and>
                    fgt (snd e) (snd s) \<and> fge (snd e) (snd p) \<and> fge (snd p) (snd s)
                 then (False, True)
            else rayCross (nextUp (fst p), snd p) s e)
         else if feq (fst p) (fst e) then
           (if feq (snd p) (snd e) then (False, True)
            else rayCross (nextUp (fst p), snd p) s e)
         else rayCross p s e)"

subsection \<open>lineStringContains\<close>

text \<open>
  \<^verbatim>\<open>LineString.Bound\<close> and \<^verbatim>\<open>Rect.Contains\<close> are not in polygon.go. The functions
  that call \<^verbatim>\<open>ls.Bound().Contains(point)\<close> take it as the parameter \<open>bc\<close>.
\<close>

text \<open>The loop over the segments \<^verbatim>\<open>ls[i], ls[i+1]\<close>, from the parity \<open>c\<close> so far.\<close>

fun segmentsLoop :: "Point \<Rightarrow> LineString \<Rightarrow> bool \<Rightarrow> bool" where
  "segmentsLoop point (a # b # rest) c =
     (let (inter, on) = rayIntersect point a b
      in if on then True
         else segmentsLoop point (b # rest) (if inter then \<not> c else c))"
| "segmentsLoop point _ c = c"

definition lineStringContains ::
  "(LineString \<Rightarrow> Point \<Rightarrow> bool) \<Rightarrow> LineString \<Rightarrow> Point \<Rightarrow> panic + bool" where
  "lineStringContains bc ls point =
     (if \<not> bc ls point then Inr False
      else (case idx ls 0 of Inl err \<Rightarrow> Inl err | Inr first \<Rightarrow>
           (case idx ls (int (length ls) - 1) of Inl err \<Rightarrow> Inl err | Inr final \<Rightarrow>
             (let (c, on) = rayIntersect point first final
              in if on then Inr True else Inr (segmentsLoop point ls c)))))"

subsection \<open>Polygon.Contains\<close>

fun holesContain ::
  "(LineString \<Rightarrow> Point \<Rightarrow> bool) \<Rightarrow> LineString list \<Rightarrow> Point \<Rightarrow> panic + bool" where
  "holesContain bc [] point = Inr True"
| "holesContain bc (h # hs) point =
     (case lineStringContains bc h point of
        Inl err \<Rightarrow> Inl err
      | Inr c \<Rightarrow> if c then Inr False else holesContain bc hs point)"

definition Contains ::
  "(LineString \<Rightarrow> Point \<Rightarrow> bool) \<Rightarrow> Polygon \<Rightarrow> Point \<Rightarrow> panic + bool" where
  "Contains bc p point =
     (case idx p 0 of Inl err \<Rightarrow> Inl err | Inr outer \<Rightarrow>
       (case lineStringContains bc outer point of
          Inl err \<Rightarrow> Inl err
        | Inr c \<Rightarrow> if \<not> c then Inr False else holesContain bc (tl p) point))"

subsection \<open>Polygon.DistanceFrom\<close>

text \<open>
  \<^verbatim>\<open>LineString.DistanceFrom\<close> is not in polygon.go: it is the parameter \<open>rd\<close>.
\<close>

fun holesDistance ::
  "(LineString \<Rightarrow> Point \<Rightarrow> bool) \<Rightarrow> (LineString \<Rightarrow> Point \<Rightarrow> float64) \<Rightarrow>
   LineString list \<Rightarrow> Point \<Rightarrow> panic + float64" where
  "holesDistance bc rd [] point = Inr (Fin 0)"
| "holesDistance bc rd (h # hs) point =
     (case Contains bc [h] point of
        Inl err \<Rightarrow> Inl err
      | Inr c \<Rightarrow> if c then Inr (rd h point) else holesDistance bc rd hs point)"

definition DistanceFrom ::
  "(LineString \<Rightarrow> Point \<Rightarrow> bool) \<Rightarrow> (LineString \<Rightarrow> Point \<Rightarrow> float64) \<Rightarrow>
   Polygon \<Rightarrow> Point \<Rightarrow> panic + float64" where
  "DistanceFrom bc rd p point =
     (case idx p 0 of Inl err \<Rightarrow> Inl err | Inr outer \<Rightarrow>
       (case Contains bc [outer] point of
          Inl err \<Rightarrow> Inl err
        | Inr c \<Rightarrow> if \<not> c then Inr (rd outer point) else holesDistance bc rd (tl p) point))"

subsection \<open>lineStringArea and Polygon.Area\<close>

text \<open>The loop \<^verbatim>\<open>for i := 1; i < len(ls)-1; i++\<close> over \<^verbatim>\<open>ls[i-1], ls[i], ls[i+1]\<close>.\<close>

fun areaLoop :: "LineString \<Rightarrow> float64 \<Rightarrow> float64" where
  "areaLoop (a # b # c # rest) area =
     areaLoop (b # c # rest) (fadd area (fmul (fst b) (fsub (snd c) (snd a))))"
| "areaLoop _ area = area"

definition lineStringArea :: "LineString \<Rightarrow> panic + float64" where
  "lineStringArea ls =
     (if length ls = 0 then Inr (Fin 0)
      else let area = areaLoop ls (Fin 0); final = int (length ls) - 1
           in (case idx ls final of Inl err \<Rightarrow> Inl err | Inr pl \<Rightarrow>
              (case idx ls 0 of Inl err \<Rightarrow> Inl err | Inr p0 \<Rightarrow>
              (case idx ls (final - 1) of Inl err \<Rightarrow> Inl err | Inr pk \<Rightarrow>
              (case idx ls 1 of Inl err \<Rightarrow> Inl err | Inr p1 \<Rightarrow>
                (let area1 = fadd area (fmul (fst pl) (fsub (snd p0) (snd pk)));
                     area2 = fadd area1 (fmul (fst p0) (fsub (snd p1) (snd pl)))
                 in Inr (fabs (fdiv area2 (Fin 2)))))))))"

fun holesArea :: "LineString list \<Rightarrow> float64 \<Rightarrow> panic + float64" where
  "holesArea [] area = Inr area"
| "holesArea (h # hs) area =
     (case lineStringArea h of
        Inl err \<Rightarrow> Inl err
      | Inr a \<Rightarrow> holesArea hs (fsub area a))"

definition Area :: "Polygon \<Rightarrow> panic + float64" where
  "Area p =
     (case idx p 0 of Inl err \<Rightarrow> Inl err | Inr outer \<Rightarrow>
       (case lineStringArea outer of
          Inl err \<Rightarrow> Inl err
        | Inr area \<Rightarrow> holesArea (tl p) area))"

subsection \<open>ringCentroid and Polygon.CentroidArea\<close>

text \<open>
  The loop \<^verbatim>\<open>for i := 1; i < len(ring)-1; i++\<close> over \<^verbatim>\<open>ring[i], ring[i+1]\<close>; the
  state is \<^verbatim>\<open>area\<close> and \<^verbatim>\<open>centroid\<close>.
\<close>

fun centroidLoop ::
  "float64 \<Rightarrow> float64 \<Rightarrow> LineString \<Rightarrow> float64 \<times> Point \<Rightarrow> float64 \<times> Point" where
  "centroidLoop offsetX offsetY (p # q # rest) (area, (cx, cy)) =
     (let a = fsub (fmul (fsub (fst p) offsetX) (fsub (snd q) offsetY))
                   (fmul (fsub (fst q) offsetX) (fsub (snd p) offsetY))
      in centroidLoop offsetX offsetY (q # rest)
           (fadd area a,
            (fadd cx (fmul (fsub (fadd (fst p) (fst q)) (fmul (Fin 2) offsetX)) a),
             fadd cy (fmul (fsub (fadd (snd p) (snd q)) (fmul (Fin 2) offsetY)) a))))"
| "centroidLoop offsetX offsetY _ acc = acc"

definition ringCentroid :: "LineString \<Rightarrow> panic + (Point \<times> float64)" where
  "ringCentroid ring =
     (case idx ring 0 of Inl err \<Rightarrow> Inl err | Inr p0 \<Rightarrow>
       (let offsetX = fst p0; offsetY = snd p0;
            (area, (cx, cy)) = centroidLoop offsetX offsetY (tl ring) (Fin 0, (Fin 0, Fin 0));
            area2 = fdiv area (Fin 2);
            cx2 = fdiv cx (fmul (Fin 6) area2);
            cy2 = fdiv cy (fmul (Fin 6) area2)
        in Inr ((fadd cx2 offsetX, fadd cy2 offsetY), area2)))"

text \<open>The loop over the holes; the state is \<^verbatim>\<open>holeArea\<close> and \<^verbatim>\<open>holeCentroid\<close>.\<close>

fun holesCentroid :: "LineString list \<Rightarrow> float64 \<times> Point \<Rightarrow> panic + (float64 \<times> Point)" where
  "holesCentroid [] acc = Inr acc"
| "holesCentroid (ring # rings) (holeArea, (hx, hy)) =
     (case ringCentroid ring of
        Inl err \<Rightarrow> Inl err
      | Inr (hc, ha) \<Rightarrow>
          holesCentroid rings
            (fadd holeArea ha, (fadd hx (fmul (fst hc) ha), fadd hy (fmul (snd hc) ha))))"

definition CentroidArea :: "Polygon \<Rightarrow> panic + (Point \<times> float64)" where
  "CentroidArea p =
     (case idx p 0 of Inl err \<Rightarrow> Inl err | Inr outer \<Rightarrow>
       (case ringCentroid outer of Inl err \<Rightarrow> Inl err | Inr (centroid, area) \<Rightarrow>
         (case holesCentroid (tl p) (Fin 0, (Fin 0, Fin 0)) of
            Inl err \<Rightarrow> Inl err
          | Inr (holeArea, holeCentroid) \<Rightarrow>
              Inr ((fdiv (fsub (fmul area (fst centroid)) (fmul holeArea (fst holeCentroid)))
                         (fsub area holeArea),
                    fdiv (fsub (fmul area (snd centroid)) (fmul holeArea (snd holeCentroid)))
                         (fsub area holeArea)),
                   fsub area holeArea))))"

subsection \<open>Polygon.WKT\<close>

text \<open>
  \<^verbatim>\<open>wktPoints\<close> is not in polygon.go: the text it writes for a ring is the
  parameter \<open>wktPoints\<close>.
\<close>

definition WKT :: "(LineString \<Rightarrow> string) \<Rightarrow> Polygon \<Rightarrow> panic + string" where
  "WKT wktPoints p =
     (if length p = 0 then Inr ''EMPTY''
      else (case idx p 0 of Inl err \<Rightarrow> Inl err | Inr outer \<Rightarrow>
              Inr (''POLYGON('' @ wktPoints outer @
                   concat (map (\<lambda>ring. '','' @ wktPoints ring) (tl p)) @ '')'')))"

section \<open>The functions on a store\<close>

text \<open>
  The functions above take values and return values. To state what a call leaves
  unchanged, the functions are written once more over a store of Points: the cells of
  the store are the elements of the rings and the Point variables. A \<^verbatim>\<open>LineString\<close> is
  the slice it is in Go, a base address and a length, and a \<^verbatim>\<open>Polygon\<close> is the list of
  its slices. Go copies a \<^verbatim>\<open>Point\<close> (an array) when it is passed or assigned: a function
  gets new cells for the Point variables that it assigns to through an index (\<^verbatim>\<open>p\<close>,
  \<^verbatim>\<open>s\<close> and \<^verbatim>\<open>e\<close> of \<^verbatim>\<open>rayIntersect\<close>, \<^verbatim>\<open>centroid\<close> of \<^verbatim>\<open>ringCentroid\<close>, \<^verbatim>\<open>centroid\<close> and
  \<^verbatim>\<open>holeCentroid\<close> of \<^verbatim>\<open>CentroidArea\<close>), holding the values passed; the other Points
  are never assigned and stay values. The elements of a ring are read from the store at
  the moment the source reads them.
\<close>

record store =
  cells :: "nat \<Rightarrow> Point"
  limit :: nat

type_synonym slice = "nat \<times> nat"

definition alloc :: "Point \<Rightarrow> store \<Rightarrow> nat \<times> store" where
  "alloc v \<sigma> = (limit \<sigma>, \<sigma>\<lparr>cells := (cells \<sigma>)(limit \<sigma> := v), limit := Suc (limit \<sigma>)\<rparr>)"

definition assign :: "nat \<Rightarrow> Point \<Rightarrow> store \<Rightarrow> store" where
  "assign a v \<sigma> = \<sigma>\<lparr>cells := (cells \<sigma>)(a := v)\<rparr>"

text \<open>
  The points of a slice, as the store has them.
\<close>

definition elems :: "store \<Rightarrow> slice \<Rightarrow> LineString" where
  "elems \<sigma> ls = map (\<lambda>i. cells \<sigma> (fst ls + i)) [0..<snd ls]"

text \<open>
  \<open>frame \<sigma> \<sigma>'\<close>: the cells that exist in \<open>\<sigma>\<close> exist in \<open>\<sigma>'\<close> and hold the same Points.
  \<open>allocated \<sigma> ls\<close>: the elements of the slice are cells of \<open>\<sigma>\<close>. \<open>preserved \<sigma> p q \<sigma>'\<close>:
  the rings of the polygon \<open>p\<close> and the Point variable at the address \<open>q\<close> hold in \<open>\<sigma>'\<close>
  what they hold in \<open>\<sigma>\<close>.
\<close>

definition frame :: "store \<Rightarrow> store \<Rightarrow> bool" where
  "frame \<sigma> \<sigma>' = (limit \<sigma> \<le> limit \<sigma>' \<and> (\<forall>a. a < limit \<sigma> \<longrightarrow> cells \<sigma>' a = cells \<sigma> a))"

definition allocated :: "store \<Rightarrow> slice \<Rightarrow> bool" where
  "allocated \<sigma> ls = (fst ls + snd ls \<le> limit \<sigma>)"

definition preserved :: "store \<Rightarrow> slice list \<Rightarrow> nat \<Rightarrow> store \<Rightarrow> bool" where
  "preserved \<sigma> p q \<sigma>' = (map (elems \<sigma>') p = map (elems \<sigma>) p \<and> cells \<sigma>' q = cells \<sigma> q)"

text \<open>
  \<^verbatim>\<open>rayIntersect\<close>: the cells \<open>p\<close>, \<open>s\<close> and \<open>e\<close> are the parameters. \<^verbatim>\<open>s, e = e, s\<close> exchanges
  two of them, \<^verbatim>\<open>p[0] = math.Nextafter(p[0], math.Inf(1))\<close> assigns to the third (the
  store \<open>\<sigma>5\<close>), and the comparisons read them.
\<close>

definition exchange :: "nat \<Rightarrow> nat \<Rightarrow> store \<Rightarrow> store" where
  "exchange s e \<sigma> = assign e (cells \<sigma> s) (assign s (cells \<sigma> e) \<sigma>)"

definition rayIntersect_body :: "nat \<Rightarrow> nat \<Rightarrow> nat \<Rightarrow> store \<Rightarrow> (bool \<times> bool) \<times> store" where
  "rayIntersect_body p s e \<sigma>3 =
     (let \<sigma>4 = (if fgt (fst (cells \<sigma>3 s)) (fst (cells \<sigma>3 e)) then exchange s e \<sigma>3 else \<sigma>3);
          \<sigma>5 = assign p (nextUp (fst (cells \<sigma>4 p)), snd (cells \<sigma>4 p)) \<sigma>4
      in if feq (fst (cells \<sigma>4 p)) (fst (cells \<sigma>4 s)) then
           (if feq (snd (cells \<sigma>4 p)) (snd (cells \<sigma>4 s)) then ((False, True), \<sigma>4)
            else if feq (fst (cells \<sigma>4 s)) (fst (cells \<sigma>4 e)) \<and>
                    fgt (snd (cells \<sigma>4 s)) (snd (cells \<sigma>4 e)) \<and>
                    fge (snd (cells \<sigma>4 s)) (snd (cells \<sigma>4 p)) \<and>
                    fge (snd (cells \<sigma>4 p)) (snd (cells \<sigma>4 e))
                 then ((False, True), \<sigma>4)
            else if feq (fst (cells \<sigma>4 s)) (fst (cells \<sigma>4 e)) \<and>
                    fgt (snd (cells \<sigma>4 e)) (snd (cells \<sigma>4 s)) \<and>
                    fge (snd (cells \<sigma>4 e)) (snd (cells \<sigma>4 p)) \<and>
                    fge (snd (cells \<sigma>4 p)) (snd (cells \<sigma>4 s))
                 then ((False, True), \<sigma>4)
            else (rayCross (cells \<sigma>5 p) (cells \<sigma>5 s) (cells \<sigma>5 e), \<sigma>5))
         else if feq (fst (cells \<sigma>4 p)) (fst (cells \<sigma>4 e)) then
           (if feq (snd (cells \<sigma>4 p)) (snd (cells \<sigma>4 e)) then ((False, True), \<sigma>4)
            else (rayCross (cells \<sigma>5 p) (cells \<sigma>5 s) (cells \<sigma>5 e), \<sigma>5))
         else (rayCross (cells \<sigma>4 p) (cells \<sigma>4 s) (cells \<sigma>4 e), \<sigma>4))"

definition rayIntersect_s :: "Point \<Rightarrow> Point \<Rightarrow> Point \<Rightarrow> store \<Rightarrow> (bool \<times> bool) \<times> store" where
  "rayIntersect_s pv sv ev \<sigma>0 =
     (let (p, \<sigma>1) = alloc pv \<sigma>0; (s, \<sigma>2) = alloc sv \<sigma>1; (e, \<sigma>3) = alloc ev \<sigma>2
      in rayIntersect_body p s e \<sigma>3)"

text \<open>
  \<^verbatim>\<open>lineStringContains\<close>, \<^verbatim>\<open>Polygon.Contains\<close> and \<^verbatim>\<open>Polygon.DistanceFrom\<close> pass the store
  from one call of \<^verbatim>\<open>rayIntersect\<close> to the next; the loop runs over the indices
  \<open>0, \<dots>, len(ls) - 2\<close>.
\<close>

fun segmentsLoop_s :: "Point \<Rightarrow> nat \<Rightarrow> nat list \<Rightarrow> bool \<Rightarrow> store \<Rightarrow> bool \<times> store" where
  "segmentsLoop_s point base [] c \<sigma> = (c, \<sigma>)"
| "segmentsLoop_s point base (i # js) c \<sigma> =
     (let ((inter, on), \<sigma>1) =
            rayIntersect_s point (cells \<sigma> (base + i)) (cells \<sigma> (base + i + 1)) \<sigma>
      in if on then (True, \<sigma>1)
         else segmentsLoop_s point base js (if inter then \<not> c else c) \<sigma>1)"

definition lineStringContains_s ::
  "(LineString \<Rightarrow> Point \<Rightarrow> bool) \<Rightarrow> slice \<Rightarrow> Point \<Rightarrow> store \<Rightarrow> (panic + bool) \<times> store" where
  "lineStringContains_s bc ls point \<sigma> =
     (if \<not> bc (elems \<sigma> ls) point then (Inr False, \<sigma>)
      else if snd ls = 0 then (Inl IndexOutOfRange, \<sigma>)
      else let ((c, on), \<sigma>1) =
                 rayIntersect_s point (cells \<sigma> (fst ls)) (cells \<sigma> (fst ls + (snd ls - 1))) \<sigma>
           in if on then (Inr True, \<sigma>1)
              else let (r, \<sigma>2) = segmentsLoop_s point (fst ls) [0..<snd ls - 1] c \<sigma>1
                   in (Inr r, \<sigma>2))"

fun holesContain_s ::
  "(LineString \<Rightarrow> Point \<Rightarrow> bool) \<Rightarrow> slice list \<Rightarrow> Point \<Rightarrow> store \<Rightarrow> (panic + bool) \<times> store" where
  "holesContain_s bc [] point \<sigma> = (Inr True, \<sigma>)"
| "holesContain_s bc (h # hs) point \<sigma> =
     (let (r, \<sigma>1) = lineStringContains_s bc h point \<sigma>
      in case r of
           Inl err \<Rightarrow> (Inl err, \<sigma>1)
         | Inr c \<Rightarrow> if c then (Inr False, \<sigma>1) else holesContain_s bc hs point \<sigma>1)"

definition Contains_s ::
  "(LineString \<Rightarrow> Point \<Rightarrow> bool) \<Rightarrow> slice list \<Rightarrow> Point \<Rightarrow> store \<Rightarrow> (panic + bool) \<times> store" where
  "Contains_s bc p point \<sigma> =
     (case idx p 0 of
        Inl err \<Rightarrow> (Inl err, \<sigma>)
      | Inr outer \<Rightarrow>
          (let (r, \<sigma>1) = lineStringContains_s bc outer point \<sigma>
           in case r of
                Inl err \<Rightarrow> (Inl err, \<sigma>1)
              | Inr c \<Rightarrow> if \<not> c then (Inr False, \<sigma>1) else holesContain_s bc (tl p) point \<sigma>1))"

fun holesDistance_s ::
  "(LineString \<Rightarrow> Point \<Rightarrow> bool) \<Rightarrow> (LineString \<Rightarrow> Point \<Rightarrow> float64) \<Rightarrow>
   slice list \<Rightarrow> Point \<Rightarrow> store \<Rightarrow> (panic + float64) \<times> store" where
  "holesDistance_s bc rd [] point \<sigma> = (Inr (Fin 0), \<sigma>)"
| "holesDistance_s bc rd (h # hs) point \<sigma> =
     (let (r, \<sigma>1) = Contains_s bc [h] point \<sigma>
      in case r of
           Inl err \<Rightarrow> (Inl err, \<sigma>1)
         | Inr c \<Rightarrow> if c then (Inr (rd (elems \<sigma>1 h) point), \<sigma>1)
                    else holesDistance_s bc rd hs point \<sigma>1)"

definition DistanceFrom_s ::
  "(LineString \<Rightarrow> Point \<Rightarrow> bool) \<Rightarrow> (LineString \<Rightarrow> Point \<Rightarrow> float64) \<Rightarrow>
   slice list \<Rightarrow> Point \<Rightarrow> store \<Rightarrow> (panic + float64) \<times> store" where
  "DistanceFrom_s bc rd p point \<sigma> =
     (case idx p 0 of
        Inl err \<Rightarrow> (Inl err, \<sigma>)
      | Inr outer \<Rightarrow>
          (let (r, \<sigma>1) = Contains_s bc [outer] point \<sigma>
           in case r of
                Inl err \<Rightarrow> (Inl err, \<sigma>1)
              | Inr c \<Rightarrow> if \<not> c then (Inr (rd (elems \<sigma>1 outer) point), \<sigma>1)
                         else holesDistance_s bc rd (tl p) point \<sigma>1))"

text \<open>
  \<^verbatim>\<open>lineStringArea\<close>, \<^verbatim>\<open>Polygon.Area\<close> and \<^verbatim>\<open>Polygon.WKT\<close> assign to no Point and call
  no function that does: they read the rings from the store (\<^verbatim>\<open>WKT\<close> writes to a
  buffer of its own).
\<close>

definition Area_s :: "slice list \<Rightarrow> store \<Rightarrow> (panic + float64) \<times> store" where
  "Area_s p \<sigma> = (Area (map (elems \<sigma>) p), \<sigma>)"

definition WKT_s :: "(LineString \<Rightarrow> string) \<Rightarrow> slice list \<Rightarrow> store \<Rightarrow> (panic + string) \<times> store" where
  "WKT_s wktPoints p \<sigma> = (WKT wktPoints (map (elems \<sigma>) p), \<sigma>)"

text \<open>
  \<^verbatim>\<open>ringCentroid\<close> and \<^verbatim>\<open>Polygon.CentroidArea\<close>: \<^verbatim>\<open>centroid\<close> and \<^verbatim>\<open>holeCentroid\<close> are
  cells, assigned one coordinate at a time; the loop of \<^verbatim>\<open>ringCentroid\<close> runs over the
  indices \<open>1, \<dots>, len(ring) - 2\<close>.
\<close>

fun centroidLoop_s ::
  "float64 \<Rightarrow> float64 \<Rightarrow> nat \<Rightarrow> nat list \<Rightarrow> nat \<Rightarrow> float64 \<Rightarrow> store \<Rightarrow> float64 \<times> store" where
  "centroidLoop_s offsetX offsetY base [] centroid area \<sigma> = (area, \<sigma>)"
| "centroidLoop_s offsetX offsetY base (i # js) centroid area \<sigma> =
     (let a = fsub (fmul (fsub (fst (cells \<sigma> (base + i))) offsetX)
                         (fsub (snd (cells \<sigma> (base + i + 1))) offsetY))
                   (fmul (fsub (fst (cells \<sigma> (base + i + 1))) offsetX)
                         (fsub (snd (cells \<sigma> (base + i))) offsetY));
          \<sigma>1 = assign centroid
                 (fadd (fst (cells \<sigma> centroid))
                    (fmul (fsub (fadd (fst (cells \<sigma> (base + i))) (fst (cells \<sigma> (base + i + 1))))
                                (fmul (Fin 2) offsetX)) a),
                  snd (cells \<sigma> centroid)) \<sigma>;
          \<sigma>2 = assign centroid
                 (fst (cells \<sigma>1 centroid),
                  fadd (snd (cells \<sigma>1 centroid))
                    (fmul (fsub (fadd (snd (cells \<sigma>1 (base + i))) (snd (cells \<sigma>1 (base + i + 1))))
                                (fmul (Fin 2) offsetY)) a)) \<sigma>1
      in centroidLoop_s offsetX offsetY base js centroid (fadd area a) \<sigma>2)"

definition ringCentroid_s :: "slice \<Rightarrow> store \<Rightarrow> (panic + (Point \<times> float64)) \<times> store" where
  "ringCentroid_s ring \<sigma>0 =
     (let (centroid, \<sigma>1) = alloc (Fin 0, Fin 0) \<sigma>0
      in if snd ring = 0 then (Inl IndexOutOfRange, \<sigma>1)
         else let offsetX = fst (cells \<sigma>1 (fst ring)); offsetY = snd (cells \<sigma>1 (fst ring));
                  (area, \<sigma>2) = centroidLoop_s offsetX offsetY (fst ring) [1..<snd ring - 1]
                                 centroid (Fin 0) \<sigma>1;
                  area2 = fdiv area (Fin 2);
                  \<sigma>3 = assign centroid (fdiv (fst (cells \<sigma>2 centroid)) (fmul (Fin 6) area2),
                                        snd (cells \<sigma>2 centroid)) \<sigma>2;
                  \<sigma>4 = assign centroid (fst (cells \<sigma>3 centroid),
                                        fdiv (snd (cells \<sigma>3 centroid)) (fmul (Fin 6) area2)) \<sigma>3;
                  \<sigma>5 = assign centroid (fadd (fst (cells \<sigma>4 centroid)) offsetX,
                                        snd (cells \<sigma>4 centroid)) \<sigma>4;
                  \<sigma>6 = assign centroid (fst (cells \<sigma>5 centroid),
                                        fadd (snd (cells \<sigma>5 centroid)) offsetY) \<sigma>5
              in (Inr (cells \<sigma>6 centroid, area2), \<sigma>6))"

fun holesCentroid_s ::
  "slice list \<Rightarrow> nat \<Rightarrow> float64 \<Rightarrow> store \<Rightarrow> (panic + float64) \<times> store" where
  "holesCentroid_s [] holeCentroid holeArea \<sigma> = (Inr holeArea, \<sigma>)"
| "holesCentroid_s (ring # rings) holeCentroid holeArea \<sigma> =
     (let (r, \<sigma>1) = ringCentroid_s ring \<sigma>
      in case r of
           Inl err \<Rightarrow> (Inl err, \<sigma>1)
         | Inr (hc, ha) \<Rightarrow>
             (let \<sigma>2 = assign holeCentroid
                          (fadd (fst (cells \<sigma>1 holeCentroid)) (fmul (fst hc) ha),
                           snd (cells \<sigma>1 holeCentroid)) \<sigma>1;
                  \<sigma>3 = assign holeCentroid
                          (fst (cells \<sigma>2 holeCentroid),
                           fadd (snd (cells \<sigma>2 holeCentroid)) (fmul (snd hc) ha)) \<sigma>2
              in holesCentroid_s rings holeCentroid (fadd holeArea ha) \<sigma>3))"

definition CentroidArea_s :: "slice list \<Rightarrow> store \<Rightarrow> (panic + (Point \<times> float64)) \<times> store" where
  "CentroidArea_s p \<sigma>0 =
     (case idx p 0 of
        Inl err \<Rightarrow> (Inl err, \<sigma>0)
      | Inr outer \<Rightarrow>
          (let (r, \<sigma>1) = ringCentroid_s outer \<sigma>0
           in case r of
                Inl err \<Rightarrow> (Inl err, \<sigma>1)
              | Inr (cv, area) \<Rightarrow>
                  (let (centroid, \<sigma>2) = alloc cv \<sigma>1;
                       (holeCentroid, \<sigma>3) = alloc (Fin 0, Fin 0) \<sigma>2;
                       (r2, \<sigma>4) = holesCentroid_s (tl p) holeCentroid (Fin 0) \<sigma>3
                   in case r2 of
                        Inl err \<Rightarrow> (Inl err, \<sigma>4)
                      | Inr holeArea \<Rightarrow>
                          (let \<sigma>5 = assign centroid
                                       (fdiv (fsub (fmul area (fst (cells \<sigma>4 centroid)))
                                                   (fmul holeArea (fst (cells \<sigma>4 holeCentroid))))
                                             (fsub area holeArea),
                                        snd (cells \<sigma>4 centroid)) \<sigma>4;
                               \<sigma>6 = assign centroid
                                       (fst (cells \<sigma>5 centroid),
                                        fdiv (fsub (fmul area (snd (cells \<sigma>5 centroid)))
                                                   (fmul holeArea (snd (cells \<sigma>5 holeCentroid))))
                                             (fsub area holeArea)) \<sigma>5
                           in (Inr (cells \<sigma>6 centroid, fsub area holeArea), \<sigma>6)))))"

section \<open>Helpers that polygon.go calls and does not define\<close>

type_synonym Rect = "Point \<times> Point"

definition fmin :: "float64 \<Rightarrow> float64 \<Rightarrow> float64" where
  "fmin a b = (if flt b a then b else a)"

definition fmax :: "float64 \<Rightarrow> float64 \<Rightarrow> float64" where
  "fmax a b = (if flt a b then b else a)"

text \<open>
  Modelled from the spec: \<^verbatim>\<open>LineString.Bound\<close> is missing. The spec has the bound of a
  ring as "two Points (min corner, max corner) forming an axis-aligned rectangle",
  "recomputable from a ring via a single pass": the pass starts from the rectangle
  that holds no point and extends it by every point of the ring.
\<close>

definition Bound :: "LineString \<Rightarrow> Rect" where
  "Bound ls =
     foldl (\<lambda>(lo, hi) p. ((fmin (fst lo) (fst p), fmin (snd lo) (snd p)),
                          (fmax (fst hi) (fst p), fmax (snd hi) (snd p))))
           ((PosInf, PosInf), (NegInf, NegInf)) ls"

text \<open>
  Modelled from the spec: \<^verbatim>\<open>Rect.Contains\<close> is missing. The spec has the pre-filter
  "if point falls outside the ring's bounding rectangle, return false", the boundary of
  the rectangle counting as inside.
\<close>

definition RectContains :: "Rect \<Rightarrow> Point \<Rightarrow> bool" where
  "RectContains r p =
     (fle (fst (fst r)) (fst p) \<and> fle (fst p) (fst (snd r)) \<and>
      fle (snd (fst r)) (snd p) \<and> fle (snd p) (snd (snd r)))"

definition boundContains :: "LineString \<Rightarrow> Point \<Rightarrow> bool" where
  "boundContains ls p = RectContains (Bound ls) p"

text \<open>
  Modelled from the spec: \<^verbatim>\<open>LineString.DistanceFrom\<close> is missing. The spec has it as
  the "minimum distance from a point to any of the ring's edges": here the Euclidean
  distance from the point to the nearest segment \<^verbatim>\<open>ls[i], ls[i+1]\<close>, computed exactly
  and rounded to binary64; positive infinity for a ring without a segment and NaN when
  a coordinate is not finite.
\<close>

definition segmentDistance2 :: "real \<times> real \<Rightarrow> real \<times> real \<Rightarrow> real \<times> real \<Rightarrow> real" where
  "segmentDistance2 a b p =
     (let dx = fst b - fst a; dy = snd b - snd a; l2 = dx * dx + dy * dy;
          t = (if l2 = 0 then 0
               else max 0 (min 1 (((fst p - fst a) * dx + (snd p - snd a) * dy) / l2)));
          qx = fst a + t * dx; qy = snd a + t * dy
      in (fst p - qx) * (fst p - qx) + (snd p - qy) * (snd p - qy))"

fun isFinite :: "float64 \<Rightarrow> bool" where
  "isFinite (Fin q) = True"
| "isFinite NegZero = True"
| "isFinite _ = False"

definition pointFinite :: "Point \<Rightarrow> bool" where
  "pointFinite p = (isFinite (fst p) \<and> isFinite (snd p))"

definition pval :: "Point \<Rightarrow> real \<times> real" where
  "pval p = (fval (fst p), fval (snd p))"

fun segmentsDistance2 :: "LineString \<Rightarrow> Point \<Rightarrow> real list" where
  "segmentsDistance2 (a # b # rest) p =
     segmentDistance2 (pval a) (pval b) (pval p) # segmentsDistance2 (b # rest) p"
| "segmentsDistance2 _ p = []"

definition ringDistance :: "LineString \<Rightarrow> Point \<Rightarrow> float64" where
  "ringDistance ls p =
     (if \<not> (pointFinite p \<and> list_all pointFinite ls) then NaN
      else case segmentsDistance2 ls p of
             [] \<Rightarrow> PosInf
           | d # ds \<Rightarrow> fround False (sqrt (foldl min d ds)))"

section \<open>Notions used to state the claims\<close>

text \<open>
  The pairs of points that \<^verbatim>\<open>lineStringContains\<close> passes to \<^verbatim>\<open>rayIntersect\<close> for a ring:
  \<^verbatim>\<open>ls[0], ls[len(ls)-1]\<close> first, then every \<^verbatim>\<open>ls[i], ls[i+1]\<close>.
\<close>

definition ringSegments :: "'a list \<Rightarrow> ('a \<times> 'a) list" where
  "ringSegments ls = (if ls = [] then [] else (hd ls, last ls) # zip ls (tl ls))"

text \<open>
  \<open>holesFit hs area\<close>: the area of every hole is at most what is left of \<open>area\<close> after
  the holes before it, with the areas and the differences that \<^verbatim>\<open>Polygon.Area\<close> computes.
\<close>

fun holesFit :: "LineString list \<Rightarrow> float64 \<Rightarrow> bool" where
  "holesFit [] area = True"
| "holesFit (h # hs) area =
     (case lineStringArea h of
        Inl err \<Rightarrow> False
      | Inr a \<Rightarrow> fle a area \<and> holesFit hs (fsub area a))"



section \<open>Rings used as examples\<close>

text \<open>The point with the integer coordinates \<open>x\<close> and \<open>y\<close>.\<close>

definition ipt :: "int \<Rightarrow> int \<Rightarrow> Point" where
  "ipt x y = (Fin (of_int x), Fin (of_int y))"

text \<open>
  The square with side 4 and the square with side 2 inside it, both closed and
  counter-clockwise (the outer ring and the hole of the spec's scenario with a hole).
\<close>

definition outer4 :: LineString where
  "outer4 = [ipt 0 0, ipt 4 0, ipt 4 4, ipt 0 4, ipt 0 0]"

definition hole2 :: LineString where
  "hole2 = [ipt 1 1, ipt 3 1, ipt 3 3, ipt 1 3, ipt 1 1]"

text \<open>
  Rings with integer coordinates: \<open>zring zs\<close> is the ring of the points \<open>zs\<close>, and
  \<open>coordsWithin B zs\<close> bounds the magnitude of every coordinate by \<open>B\<close>.
\<close>

definition zring :: "(int \<times> int) list \<Rightarrow> LineString" where
  "zring zs = map (\<lambda>z. ipt (fst z) (snd z)) zs"

definition coordsWithin :: "int \<Rightarrow> (int \<times> int) list \<Rightarrow> bool" where
  "coordsWithin B zs = list_all (\<lambda>z. \<bar>fst z\<bar> \<le> B \<and> \<bar>snd z\<bar> \<le> B) zs"

text \<open>
  The sum that \<^verbatim>\<open>lineStringArea\<close> halves, over the integers: the loop, then the two
  terms with the indices that wrap around.
\<close>

fun areaLoopZ :: "(int \<times> int) list \<Rightarrow> int \<Rightarrow> int" where
  "areaLoopZ (a # b # c # rest) acc = areaLoopZ (b # c # rest) (acc + fst b * (snd c - snd a))"
| "areaLoopZ _ acc = acc"

definition shoelaceZ :: "(int \<times> int) list \<Rightarrow> int" where
  "shoelaceZ zs =
     areaLoopZ zs 0
       + fst (zs ! (length zs - 1)) * (snd (zs ! 0) - snd (zs ! (length zs - 2)))
       + fst (zs ! 0) * (snd (zs ! 1) - snd (zs ! (length zs - 1)))"

text \<open>
  A closed triangle, thin and tall: its shoelace terms are 0, \<open>2 ^ 54\<close>, 2 and
  \<open>- (2 ^ 54)\<close>, and the order in which they are added decides whether the 2 is lost.
\<close>

definition tallTriangle :: LineString where
  "tallTriangle = [ipt 2 0, ipt 0 (- (2 ^ 53)), ipt 2 (- 1), ipt 2 0]"




text \<open>
  A store with the two example rings, at the addresses 0 to 4 and 5 to 9, and a Point
  variable with the point (0, 2) at the address 10.
\<close>

definition exampleStore :: store where
  "exampleStore =
     \<lparr>cells = (\<lambda>a. if a < 11 then (outer4 @ hole2 @ [ipt 0 2]) ! a else (Fin 0, Fin 0)),
      limit = 11\<rparr>"

section \<open>Facts used by the proofs\<close>

subsection \<open>Facts about float64\<close>

lemma ilog2_of_int:
  assumes "0 < n"
  shows "ilog2 (of_int n) = bitlen n - 1"
  using assms by (simp add: ilog2_def)

lemma rne_of_int: "rne (of_int m) = m"
  by (simp add: rne_def)

lemma fround_of_int:
  assumes "n \<noteq> 0" and "\<bar>n\<bar> < 2 ^ 53"
  shows "fround neg (of_int n) = Fin (of_int n)"
proof -
  define a where "a = \<bar>n\<bar>"
  define e where "e = bitlen a - 1"
  have apos: "0 < a" using assms(1) by (simp add: a_def)
  have b: "2 ^ nat e \<le> a" "a < 2 ^ nat (bitlen a)"
    using bitlen_bounds [OF apos] by (simp_all add: e_def)
  have "bitlen a \<le> 53"
    using assms(2) by (simp add: bitlen_le_iff_power a_def)
  moreover have "1 \<le> bitlen a"
    using apos bitlen_eq_zero_iff [of a] bitlen_nonneg [of a] by linarith
  ultimately have e: "0 \<le> e" "e \<le> 52" by (simp_all add: e_def)
  have il: "ilog2 \<bar>of_int n\<bar> = e"
    using ilog2_of_int [OF apos] by (simp add: a_def e_def)
  define k where "k = nat (52 - e)"
  have u: "(2::real) powi (e - 52) = 1 / 2 ^ k"
    using e by (simp add: power_int_def k_def field_simps)
  have q: "\<bar>real_of_int n\<bar> / (1 / 2 ^ k) = of_int (a * 2 ^ k)"
    by (simp add: a_def)
  have r: "of_int (rne (\<bar>real_of_int n\<bar> / (2 powi (e - 52)))) * (2::real) powi (e - 52) = of_int a"
    unfolding u q rne_of_int by simp
  have lt: "real_of_int a < 2 powi 1024"
  proof -
    have "real_of_int a < 2 ^ 53"
      using assms(2) unfolding a_def by (metis of_int_less_numeral_power_cancel_iff)
    also have "\<dots> \<le> 2 ^ 1024" by (rule power_increasing) simp_all
    finally show ?thesis by simp
  qed
  have ne: "real_of_int a \<noteq> 0" using apos by simp
  have mx: "max e (- 1022) = e" using e by simp
  have sg: "(if real_of_int n < 0 then - real_of_int a else real_of_int a) = real_of_int n"
    by (simp add: a_def)
  have q0: "real_of_int n \<noteq> 0" using assms(1) by simp
  have nle: "\<not> (2::real) powi 1024 \<le> real_of_int a" using lt by simp
  show ?thesis
    unfolding fround_def Let_def il mx r
    by (simp only: q0 nle ne sg if_False)
qed

lemma fround_0 [simp]: "fround neg 0 = fzero neg"
  by (simp add: fround_def)

lemma fround_numeral [simp]:
  "numeral k < (2 ^ 53 :: int) \<Longrightarrow> fround neg (numeral k) = Fin (numeral k)"
  using fround_of_int [of "numeral k" neg] by simp

lemma fround_neg_numeral [simp]:
  "numeral k < (2 ^ 53 :: int) \<Longrightarrow> fround neg (- numeral k) = Fin (- numeral k)"
  using fround_of_int [of "- numeral k" neg] by simp

lemma fround_1 [simp]: "fround neg 1 = Fin 1"
  using fround_of_int [of 1 neg] by simp

lemma fround_neg_1 [simp]: "fround neg (- 1) = Fin (- 1)"
  using fround_of_int [of "- 1" neg] by simp

lemmas farith = fadd_def fsub_def fmul_def fdiv_def fzero_def finf_def
lemmas fcompare = flt_def feq_def fle_def fgt_def fge_def

lemmas feval = farith idx_def ipt_def Let_def

subsection \<open>The example rings\<close>

lemma ringCentroid_outer4: "ringCentroid outer4 = Inr ((Fin 2, Fin 2), Fin 16)"
  by (simp add: ringCentroid_def outer4_def feval cong: let_weak_cong)

lemma ringCentroid_hole2: "ringCentroid hole2 = Inr ((Fin 2, Fin 2), Fin 4)"
  by (simp add: ringCentroid_def hole2_def feval cong: let_weak_cong)

lemma ringCentroid_rev_outer4: "ringCentroid (rev outer4) = Inr ((Fin 2, Fin 2), Fin (- 16))"
  by (simp add: ringCentroid_def outer4_def feval cong: let_weak_cong)

lemma lineStringArea_outer4: "lineStringArea outer4 = Inr (Fin 16)"
  by (simp add: lineStringArea_def outer4_def feval cong: let_weak_cong)

lemma lineStringArea_rev_outer4: "lineStringArea (rev outer4) = Inr (Fin 16)"
  by (simp add: lineStringArea_def outer4_def feval cong: let_weak_cong)

lemma lineStringArea_hole2: "lineStringArea hole2 = Inr (Fin 4)"
  by (simp add: lineStringArea_def hole2_def feval cong: let_weak_cong)

subsection \<open>Areas\<close>

lemma fabs_nonneg: "fabs x = NaN \<or> fge (fabs x) (Fin 0)"
  by (cases x) (simp_all add: fcompare)

lemma lineStringArea_nonneg:
  assumes "lineStringArea ls = Inr a"
  shows "a = NaN \<or> fge a (Fin 0)"
proof (cases "length ls = 0")
  case True
  with assms show ?thesis by (simp add: lineStringArea_def fcompare)
next
  case False
  with assms obtain x where "a = fabs x"
    by (auto simp add: lineStringArea_def Let_def split: sum.splits)
  then show ?thesis using fabs_nonneg [of x] by simp
qed

subsection \<open>Comparisons\<close>

lemma feq_sym: "feq x y \<Longrightarrow> feq y x"
  by (simp add: feq_def)

lemma feq_not_fgt: "feq x y \<Longrightarrow> \<not> fgt x y"
  by (simp add: fcompare)

lemma fle_neq_flt: "fle x y \<Longrightarrow> \<not> feq x y \<Longrightarrow> flt x y"
  by (simp add: fle_def)

lemma flt_fle_trans: "flt x y \<Longrightarrow> fle y z \<Longrightarrow> flt x z"
  by (auto simp add: flt_def fle_def feq_def)

lemma fle_flt_trans: "fle x y \<Longrightarrow> flt y z \<Longrightarrow> flt x z"
  by (auto simp add: flt_def fle_def feq_def)

lemma fle_trans: "fle x y \<Longrightarrow> fle y z \<Longrightarrow> fle x z"
  by (auto simp add: flt_def fle_def feq_def)

lemma fle_refl: "x \<noteq> NaN \<Longrightarrow> fle x x"
  by (simp add: fle_def feq_def)

lemma fle_not_NaN: "fle x y \<Longrightarrow> x \<noteq> NaN \<and> y \<noteq> NaN"
  by (auto simp add: flt_def fle_def feq_def)

lemma feq_fle: "feq x y \<Longrightarrow> fle x y \<and> fle y x"
  by (simp add: fle_def feq_def)

lemma not_flt_fle: "\<not> flt x y \<Longrightarrow> x \<noteq> NaN \<Longrightarrow> y \<noteq> NaN \<Longrightarrow> fle y x"
  by (auto simp add: flt_def fle_def feq_def)

subsection \<open>The ring predicate and the polygon predicate\<close>

lemma Contains_single: "Contains bc [h] point = lineStringContains bc h point"
  by (simp add: Contains_def idx_def split: sum.splits)

lemma Contains_Cons:
  "Contains bc (outer # holes) point =
     (case lineStringContains bc outer point of
        Inl err \<Rightarrow> Inl err
      | Inr c \<Rightarrow> if \<not> c then Inr False else holesContain bc holes point)"
  by (simp add: Contains_def idx_def split: sum.splits)





lemma segmentsLoop_on:
  "(a, b) \<in> set (zip ls (tl ls)) \<Longrightarrow> snd (rayIntersect point a b) \<Longrightarrow>
   segmentsLoop point ls c"
proof (induction point ls c rule: segmentsLoop.induct)
  case (1 point x y rest c)
  then show ?case by (auto split: prod.splits)
qed simp_all

lemma lineStringContains_on:
  assumes "bc ls point" and "(a, b) \<in> set (ringSegments ls)"
    and "snd (rayIntersect point a b)"
  shows "lineStringContains bc ls point = Inr True"
proof -
  from assms(2) have ne: "ls \<noteq> []" by (auto simp add: ringSegments_def split: if_splits)
  then have "nat (int (length ls) - 1) = length ls - 1"
    by (cases ls) simp_all
  with ne have i0: "idx ls 0 = Inr (hd ls)" "idx ls (int (length ls) - 1) = Inr (last ls)"
    by (simp_all add: idx_def hd_conv_nth last_conv_nth)
  from assms(2) ne consider "a = hd ls \<and> b = last ls" | "(a, b) \<in> set (zip ls (tl ls))"
    by (auto simp add: ringSegments_def)
  then show ?thesis
  proof cases
    case 1
    with assms(1,3) i0 show ?thesis
      by (auto simp add: lineStringContains_def split: prod.splits)
  next
    case 2
    from segmentsLoop_on [OF 2 assms(3)] assms(1) i0 show ?thesis
      by (auto simp add: lineStringContains_def split: prod.splits)
  qed
qed

lemma rayIntersect_vertical:
  assumes v: "feq (fst a) (fst b)" and x: "feq (fst point) (fst a)"
    and y: "(fle (snd a) (snd point) \<and> fle (snd point) (snd b)) \<or>
            (fle (snd b) (snd point) \<and> fle (snd point) (snd a))"
  shows "rayIntersect point a b = (False, True)"
proof -
  have ns: "\<not> fgt (fst a) (fst b)" using v by (rule feq_not_fgt)
  show ?thesis
  proof (cases "feq (snd point) (snd a)")
    case True
    with ns x show ?thesis by (simp add: rayIntersect_def)
  next
    case False
    then have ne: "\<not> feq (snd a) (snd point)" using feq_sym by blast
    from y show ?thesis
    proof
      assume h: "fle (snd a) (snd point) \<and> fle (snd point) (snd b)"
      then have "flt (snd a) (snd point)" using ne by (simp add: fle_neq_flt)
      with h have "flt (snd a) (snd b)" by (blast intro: flt_fle_trans)
      then have up: "fgt (snd b) (snd a)" by (simp add: fgt_def)
      from h have "fge (snd b) (snd point)" "fge (snd point) (snd a)"
        by (simp_all add: fge_def)
      with ns v x False up show ?thesis by (simp add: rayIntersect_def)
    next
      assume h: "fle (snd b) (snd point) \<and> fle (snd point) (snd a)"
      then have "flt (snd point) (snd a)" using False by (simp add: fle_neq_flt)
      with h have "flt (snd b) (snd a)" by (blast intro: fle_flt_trans)
      then have dn: "fgt (snd a) (snd b)" by (simp add: fgt_def)
      from h have "fge (snd a) (snd point)" "fge (snd point) (snd b)"
        by (simp_all add: fge_def)
      with ns v x False dn show ?thesis by (simp add: rayIntersect_def)
    qed
  qed
qed

subsection \<open>The bounding rectangle of a ring\<close>

lemma foldl_fmin:
  "m \<noteq> NaN \<Longrightarrow>
   foldl fmin m xs \<noteq> NaN \<and> fle (foldl fmin m xs) m \<and>
   (\<forall>x\<in>set xs. x \<noteq> NaN \<longrightarrow> fle (foldl fmin m xs) x)"
proof (induction xs arbitrary: m)
  case Nil
  then show ?case by (simp add: fle_refl)
next
  case (Cons x xs)
  show ?case
  proof (cases "flt x m")
    case True
    then have x: "x \<noteq> NaN" by (auto simp add: flt_def)
    have step: "fmin m x = x" using True by (simp add: fmin_def)
    have xm: "fle x m" using True by (simp add: fle_def)
    from Cons.IH [OF x] xm show ?thesis
      by (auto simp add: step intro: fle_trans)
  next
    case False
    have step: "fmin m x = m" using False by (simp add: fmin_def)
    from Cons.IH [OF Cons.prems] False Cons.prems show ?thesis
      by (auto simp add: step intro: fle_trans not_flt_fle)
  qed
qed

lemma foldl_fmax:
  "m \<noteq> NaN \<Longrightarrow>
   foldl fmax m xs \<noteq> NaN \<and> fle m (foldl fmax m xs) \<and>
   (\<forall>x\<in>set xs. x \<noteq> NaN \<longrightarrow> fle x (foldl fmax m xs))"
proof (induction xs arbitrary: m)
  case Nil
  then show ?case by (simp add: fle_refl)
next
  case (Cons x xs)
  show ?case
  proof (cases "flt m x")
    case True
    then have x: "x \<noteq> NaN" by (auto simp add: flt_def)
    have step: "fmax m x = x" using True by (simp add: fmax_def)
    have xm: "fle m x" using True by (simp add: fle_def)
    from Cons.IH [OF x] xm show ?thesis
      by (auto simp add: step intro: fle_trans)
  next
    case False
    have step: "fmax m x = m" using False by (simp add: fmax_def)
    from Cons.IH [OF Cons.prems] False Cons.prems show ?thesis
      by (auto simp add: step intro: fle_trans not_flt_fle)
  qed
qed

lemma Bound_foldl:
  "foldl (\<lambda>(lo, hi) p. ((fmin (fst lo) (fst p), fmin (snd lo) (snd p)),
                        (fmax (fst hi) (fst p), fmax (snd hi) (snd p))))
         ((a, b), (c, d)) ls =
   ((foldl fmin a (map fst ls), foldl fmin b (map snd ls)),
    (foldl fmax c (map fst ls), foldl fmax d (map snd ls)))"
  by (induction ls arbitrary: a b c d) simp_all

lemma Bound_components:
  "Bound ls = ((foldl fmin PosInf (map fst ls), foldl fmin PosInf (map snd ls)),
               (foldl fmax NegInf (map fst ls), foldl fmax NegInf (map snd ls)))"
  by (simp add: Bound_def Bound_foldl)

lemma Bound_encloses:
  assumes "p \<in> set ls"
  shows "fst p \<noteq> NaN \<Longrightarrow> fle (fst (fst (Bound ls))) (fst p) \<and> fle (fst p) (fst (snd (Bound ls)))"
    and "snd p \<noteq> NaN \<Longrightarrow> fle (snd (fst (Bound ls))) (snd p) \<and> fle (snd p) (snd (snd (Bound ls)))"
proof -
  show "fst p \<noteq> NaN \<Longrightarrow> fle (fst (fst (Bound ls))) (fst p) \<and> fle (fst p) (fst (snd (Bound ls)))"
    using foldl_fmin [of PosInf "map fst ls"] foldl_fmax [of NegInf "map fst ls"] assms
    by (auto simp add: Bound_components)
  show "snd p \<noteq> NaN \<Longrightarrow> fle (snd (fst (Bound ls))) (snd p) \<and> fle (snd p) (snd (snd (Bound ls)))"
    using foldl_fmin [of PosInf "map snd ls"] foldl_fmax [of NegInf "map snd ls"] assms
    by (auto simp add: Bound_components)
qed

lemma ringSegments_set:
  "(a, b) \<in> set (ringSegments ls) \<Longrightarrow> a \<in> set ls \<and> b \<in> set ls"
proof -
  assume h: "(a, b) \<in> set (ringSegments ls)"
  then have ne: "ls \<noteq> []" by (auto simp add: ringSegments_def split: if_splits)
  from h ne consider "a = hd ls \<and> b = last ls" | "(a, b) \<in> set (zip ls (tl ls))"
    by (auto simp add: ringSegments_def)
  then show ?thesis
  proof cases
    case 1
    with ne show ?thesis by simp
  next
    case 2
    then have "a \<in> set ls" "b \<in> set (tl ls)"
      by (auto dest: set_zip_leftD set_zip_rightD)
    with ne show ?thesis by (auto dest: list.set_sel(2))
  qed
qed

lemma boundContains_vertical:
  assumes s: "(a, b) \<in> set (ringSegments ls)"
    and v: "feq (fst a) (fst b)" and x: "feq (fst point) (fst a)"
    and y: "(fle (snd a) (snd point) \<and> fle (snd point) (snd b)) \<or>
            (fle (snd b) (snd point) \<and> fle (snd point) (snd a))"
  shows "boundContains ls point"
proof -
  from s have mem: "a \<in> set ls" "b \<in> set ls" using ringSegments_set [of a b ls] by blast+
  have ax: "fst a \<noteq> NaN" using v by (auto simp add: feq_def)
  have xa: "fle (fst point) (fst a)" "fle (fst a) (fst point)" using x feq_fle by blast+
  have ay: "snd a \<noteq> NaN" "snd b \<noteq> NaN" using y fle_not_NaN by blast+
  note A = Bound_encloses [OF mem(1)] and B = Bound_encloses [OF mem(2)]
  have X: "fle (fst (fst (Bound ls))) (fst point)" "fle (fst point) (fst (snd (Bound ls)))"
    using A(1) [OF ax] xa by (blast intro: fle_trans)+
  have Y: "fle (snd (fst (Bound ls))) (snd point) \<and> fle (snd point) (snd (snd (Bound ls)))"
    using y A(2) [OF ay(1)] B(2) [OF ay(2)] by (blast intro: fle_trans)
  from X Y show ?thesis by (simp add: boundContains_def RectContains_def)
qed


lemmas ceval = lineStringContains_def rayIntersect_def rayCross_def slopeCompare_def
  boundContains_def RectContains_def Bound_def fmin_def fmax_def fcompare idx_def ipt_def Let_def



lemma outer4_11: "lineStringContains boundContains outer4 (ipt 1 1) = Inr True"
  by (simp add: outer4_def ceval cong: let_weak_cong)

lemma hole2_11: "lineStringContains boundContains hole2 (ipt 1 1) = Inr True"
  by (simp add: hole2_def ceval cong: let_weak_cong)

subsection \<open>The distance from a polygon\<close>

lemma DistanceFrom_Cons:
  "DistanceFrom bc rd (outer # holes) point =
     (case lineStringContains bc outer point of
        Inl err \<Rightarrow> Inl err
      | Inr c \<Rightarrow> if \<not> c then Inr (rd outer point) else holesDistance bc rd holes point)"
  by (simp add: DistanceFrom_def idx_def Contains_single split: sum.splits)

lemma holesDistance_none:
  "holesContain bc hs point = Inr True \<Longrightarrow> holesDistance bc rd hs point = Inr (Fin 0)"
  by (induction hs) (auto simp add: Contains_single split: sum.splits if_splits)

lemma holesDistance_cases:
  "holesDistance bc rd hs point = Inr d \<Longrightarrow>
   (\<exists>h\<in>set hs. d = rd h point) \<or> (holesContain bc hs point = Inr True \<and> d = Fin 0)"
  by (induction hs) (auto simp add: Contains_single split: sum.splits if_splits)

lemmas deval = ringDistance_def segmentDistance2_def pointFinite_def pval_def ipt_def Let_def

lemma ringDistance_hole2_11: "ringDistance hole2 (ipt 1 1) = Fin 0"
  by (simp add: hole2_def deval fzero_def cong: let_weak_cong)

lemma ringDistance_outer4_12: "ringDistance outer4 (ipt 1 2) = Fin 1"
  by (simp add: outer4_def deval cong: let_weak_cong)

lemma ringDistance_hole23_12:
  "ringDistance [ipt 2 2, ipt 3 2, ipt 3 3, ipt 2 3, ipt 2 2] (ipt 1 2) = Fin 1"
  by (simp add: deval cong: let_weak_cong)

subsection \<open>Sums that round\<close>

lemma ilog2_int_eqI:
  assumes "2 ^ k \<le> n" and "n < 2 ^ Suc k"
  shows "ilog2 (of_int n) = int k"
proof -
  have pos: "0 < n" using assms(1) by (smt (verit) zero_less_power)
  have nk: "nat (int (Suc k)) = Suc k" "nat (int (Suc k)) - 1 = k" by simp_all
  have "bitlen n \<le> int (Suc k)"
    unfolding bitlen_le_iff_power nk using assms(2) by simp
  moreover have "int (Suc k) \<le> bitlen n"
    unfolding bitlen_ge_iff_power nk using assms(1) by simp
  ultimately have "bitlen n = int k + 1" by simp
  then show ?thesis using ilog2_of_int [OF pos] by simp
qed

lemma ilog2_53: "ilog2 9007199254740992 = 53"
  using ilog2_int_eqI [of 53 "2 ^ 53"] by simp

lemma ilog2_54: "ilog2 18014398509481984 = 54"
  using ilog2_int_eqI [of 54 "2 ^ 54"] by simp

lemma ilog2_54_2: "ilog2 18014398509481986 = 54"
  using ilog2_int_eqI [of 54 "2 ^ 54 + 2"] by simp

lemma fround_53: "fround neg 9007199254740992 = Fin 9007199254740992"
  by (simp add: fround_def Let_def ilog2_53 rne_def)

lemma fround_m53: "fround neg (- 9007199254740992) = Fin (- 9007199254740992)"
  by (simp add: fround_def Let_def ilog2_53 rne_def)

lemma fround_54: "fround neg 18014398509481984 = Fin 18014398509481984"
  by (simp add: fround_def Let_def ilog2_54 rne_def)

lemma fround_m54: "fround neg (- 18014398509481984) = Fin (- 18014398509481984)"
  by (simp add: fround_def Let_def ilog2_54 rne_def)

lemma fround_54_2: "fround neg 18014398509481986 = Fin 18014398509481984"
  by (simp add: fround_def Let_def ilog2_54_2 rne_def)

lemma fround_m54_2: "fround neg (- 18014398509481986) = Fin (- 18014398509481984)"
  by (simp add: fround_def Let_def ilog2_54_2 rne_def)

lemmas reval = fround_53 fround_m53 fround_54 fround_m54 fround_54_2 fround_m54_2

lemma lineStringArea_tallTriangle: "lineStringArea tallTriangle = Inr (Fin 0)"
  by (simp add: lineStringArea_def tallTriangle_def feval reval cong: let_weak_cong)

lemma lineStringArea_rev_tallTriangle: "lineStringArea (rev tallTriangle) = Inr (Fin 1)"
  by (simp add: lineStringArea_def tallTriangle_def feval reval cong: let_weak_cong)

subsection \<open>Sums that are exact\<close>

lemma fround_int_exact:
  "\<bar>n\<bar> < 2 ^ 53 \<Longrightarrow> fround neg (of_int n) = (if n = 0 then fzero neg else Fin (of_int n))"
  using fround_of_int [of n neg] by simp

lemma fsub_int:
  assumes "\<bar>a - b\<bar> < 2 ^ 53"
  shows "fsub (Fin (of_int a)) (Fin (of_int b)) = Fin (of_int (a - b))"
proof -
  have r: "fround neg (real_of_int a - real_of_int b) =
           (if a - b = 0 then fzero neg else Fin (of_int (a - b)))" for neg
    using fround_int_exact [OF assms, of neg] by simp
  show ?thesis
  proof (cases "b = 0")
    case True
    with r [of "a < 0"] show ?thesis by (simp add: fsub_def fadd_def fzero_def)
  next
    case False
    with r [of "a < 0 \<and> 0 < b"] show ?thesis by (auto simp add: fsub_def fadd_def fzero_def)
  qed
qed

lemma fmul_int_zero:
  "x * d = 0 \<Longrightarrow> fmul (Fin (of_int x)) (Fin (of_int d)) = fzero ((x < 0) \<noteq> (d < 0))"
  by (auto simp add: fmul_def)

lemma fmul_int:
  assumes "\<bar>x * d\<bar> < 2 ^ 53" and "x * d \<noteq> 0"
  shows "fmul (Fin (of_int x)) (Fin (of_int d)) = Fin (of_int (x * d))"
  using fround_int_exact [OF assms(1), of "(x < 0) \<noteq> (d < 0)"] assms(2) by (simp add: fmul_def)

lemma fadd_int_zero: "fadd (Fin (of_int a)) (fzero neg) = Fin (of_int a)" if "\<bar>a\<bar> < 2 ^ 53"
  using fround_int_exact [OF that, of "a < 0"] fround_int_exact [OF that, of False]
  by (simp add: fadd_def fzero_def)

lemma fadd_int:
  assumes "\<bar>a + b\<bar> < 2 ^ 53"
  shows "fadd (Fin (of_int a)) (Fin (of_int b)) = Fin (of_int (a + b))"
  using fround_int_exact [OF assms, of "a < 0 \<and> b < 0"] by (auto simp add: fadd_def fzero_def)

lemma shoelace_step:
  assumes "\<bar>y1 - y2\<bar> < 2 ^ 53" and "\<bar>x * (y1 - y2)\<bar> < 2 ^ 53"
    and "\<bar>a\<bar> < 2 ^ 53" and "\<bar>a + x * (y1 - y2)\<bar> < 2 ^ 53"
  shows "fadd (Fin (of_int a)) (fmul (Fin (of_int x)) (fsub (Fin (of_int y1)) (Fin (of_int y2)))) =
         Fin (of_int (a + x * (y1 - y2)))"
proof -
  have s: "fsub (Fin (of_int y1)) (Fin (of_int y2)) = Fin (of_int (y1 - y2))"
    by (rule fsub_int [OF assms(1)])
  show ?thesis
  proof (cases "x * (y1 - y2) = 0")
    case True
    show ?thesis unfolding s fmul_int_zero [OF True] fadd_int_zero [OF assms(3)] using True by simp
  next
    case False
    show ?thesis unfolding s fmul_int [OF assms(2) False] by (rule fadd_int [OF assms(4)])
  qed
qed

lemma term_bound:
  assumes "\<bar>x\<bar> \<le> B" "\<bar>y1\<bar> \<le> B" "\<bar>y2\<bar> \<le> (B::int)"
  shows "\<bar>y1 - y2\<bar> \<le> 2 * B" and "\<bar>x * (y1 - y2)\<bar> \<le> 2 * B * B"
proof -
  show d: "\<bar>y1 - y2\<bar> \<le> 2 * B" using assms by linarith
  have B0: "0 \<le> B" using assms(1) by linarith
  have "\<bar>x * (y1 - y2)\<bar> = \<bar>x\<bar> * \<bar>y1 - y2\<bar>" by (simp add: abs_mult)
  also have "\<dots> \<le> B * (2 * B)"
    using assms(1) d B0 by (intro mult_mono) simp_all
  finally show "\<bar>x * (y1 - y2)\<bar> \<le> 2 * B * B" by (simp add: mult_ac)
qed

lemma abs_sum_le: "\<bar>a\<bar> \<le> K \<Longrightarrow> \<bar>t\<bar> \<le> T \<Longrightarrow> \<bar>a + t\<bar> \<le> K + (T::int)"
  by linarith

lemma areaLoop_int:
  assumes "coordsWithin B zs" and "\<bar>acc\<bar> + int (length zs) * (2 * B * B) < 2 ^ 53" and "1 \<le> B"
  shows "areaLoop (zring zs) (Fin (of_int acc)) = Fin (of_int (areaLoopZ zs acc)) \<and>
         \<bar>areaLoopZ zs acc\<bar> \<le> \<bar>acc\<bar> + int (length zs - 2) * (2 * B * B)"
  using assms
proof (induction zs acc rule: areaLoopZ.induct)
  case (1 a b c rest acc)
  let ?T = "2 * B * B"
  let ?t = "fst b * (snd c - snd a)"
  from "1.prems"(1) have bd: "\<bar>fst b\<bar> \<le> B" "\<bar>snd c\<bar> \<le> B" "\<bar>snd a\<bar> \<le> B"
    and rest: "coordsWithin B (b # c # rest)"
    by (simp_all add: coordsWithin_def)
  note tb = term_bound [OF bd]
  have T0: "0 \<le> ?T" using "1.prems"(3) by simp
  have TB: "2 * B \<le> ?T" using "1.prems"(3) by (simp add: mult_le_cancel_left1)
  have len: "int (length (a # b # c # rest)) * ?T = int (length (b # c # rest)) * ?T + ?T"
    by (simp add: algebra_simps)
  have big: "\<bar>acc\<bar> + int (length (b # c # rest)) * ?T + ?T < 2 ^ 53"
    using "1.prems"(2) unfolding len by simp
  have lpos: "0 \<le> int (length (b # c # rest)) * ?T" using T0 by simp
  have s1: "\<bar>snd c - snd a\<bar> < 2 ^ 53" using tb(1) TB big lpos by linarith
  have s2: "\<bar>?t\<bar> < 2 ^ 53" using tb(2) big lpos by linarith
  have s3: "\<bar>acc\<bar> < 2 ^ 53" using big lpos T0 by linarith
  have s4: "\<bar>acc + ?t\<bar> < 2 ^ 53" using tb(2) big lpos by linarith
  have step: "fadd (Fin (of_int acc)) (fmul (fst (ipt (fst b) (snd b)))
                (fsub (snd (ipt (fst c) (snd c))) (snd (ipt (fst a) (snd a))))) =
              Fin (of_int (acc + ?t))"
    using shoelace_step [OF s1 s2 s3 s4] by (simp add: ipt_def)
  have next_bound: "\<bar>acc + ?t\<bar> + int (length (b # c # rest)) * ?T < 2 ^ 53"
    using tb(2) big by linarith
  note IH = "1.IH" [OF rest next_bound "1.prems"(3)]
  have "areaLoop (zring (a # b # c # rest)) (Fin (of_int acc)) =
        areaLoop (zring (b # c # rest)) (Fin (of_int (acc + ?t)))"
    using step by (simp add: zring_def)
  moreover have "\<bar>areaLoopZ (b # c # rest) (acc + ?t)\<bar> \<le>
      \<bar>acc\<bar> + int (length (a # b # c # rest) - 2) * ?T"
  proof -
    have "int (length (a # b # c # rest) - 2) * ?T = int (length (b # c # rest) - 2) * ?T + ?T"
      by (simp add: algebra_simps)
    then show ?thesis using IH tb(2) by linarith
  qed
  ultimately show ?case using IH by simp
qed (simp_all add: zring_def)

lemma coordsWithin_nth: "coordsWithin B zs \<Longrightarrow> i < length zs \<Longrightarrow> \<bar>fst (zs ! i)\<bar> \<le> B \<and> \<bar>snd (zs ! i)\<bar> \<le> B"
  by (simp add: coordsWithin_def list_all_length)

lemma zring_nth: "i < length zs \<Longrightarrow> zring zs ! i = ipt (fst (zs ! i)) (snd (zs ! i))"
  by (simp add: zring_def)

lemma lineStringArea_int:
  assumes b: "coordsWithin B zs" and n: "2 \<le> length zs" and B: "1 \<le> B"
    and big: "int (length zs) * (2 * B * B) < 2 ^ 53"
  shows "lineStringArea (zring zs) = Inr (fabs (fdiv (Fin (of_int (shoelaceZ zs))) (Fin 2)))"
proof -
  let ?N = "length zs"
  let ?T = "2 * B * B"
  let ?A = "areaLoopZ zs 0"
  let ?t1 = "fst (zs ! (?N - 1)) * (snd (zs ! 0) - snd (zs ! (?N - 2)))"
  let ?t2 = "fst (zs ! 0) * (snd (zs ! 1) - snd (zs ! (?N - 1)))"
  have T0: "0 \<le> ?T" using B by simp
  have TB: "2 * B \<le> ?T" using B by (simp add: mult_le_cancel_left1)
  have NT: "int ?N * ?T = int (?N - 2) * ?T + ?T + ?T"
    using n by (simp add: algebra_simps of_nat_diff)
  have N2: "0 \<le> int (?N - 2) * ?T" using T0 by simp
  have loop: "areaLoop (zring zs) (Fin (of_int 0)) = Fin (of_int ?A)"
    and A: "\<bar>?A\<bar> \<le> int (?N - 2) * ?T"
    using areaLoop_int [OF b _ B, of 0] big by simp_all
  have "0 < ?N \<and> 1 < ?N \<and> ?N - 1 < ?N \<and> ?N - 2 < ?N" using n by linarith
  then have i0: "0 < ?N" "1 < ?N" "?N - 1 < ?N" "?N - 2 < ?N" by blast+
  note bn = coordsWithin_nth [OF b]
  have tb1: "\<bar>snd (zs ! 0) - snd (zs ! (?N - 2))\<bar> \<le> 2 * B" "\<bar>?t1\<bar> \<le> ?T"
    using term_bound [of "fst (zs ! (?N - 1))" B "snd (zs ! 0)" "snd (zs ! (?N - 2))"]
      bn [OF i0(1)] bn [OF i0(3)] bn [OF i0(4)] by simp_all
  have tb2: "\<bar>snd (zs ! 1) - snd (zs ! (?N - 1))\<bar> \<le> 2 * B" "\<bar>?t2\<bar> \<le> ?T"
    using term_bound [of "fst (zs ! 0)" B "snd (zs ! 1)" "snd (zs ! (?N - 1))"]
      bn [OF i0(1)] bn [OF i0(2)] bn [OF i0(3)] by simp_all
  have big': "int (?N - 2) * ?T + ?T + ?T < 2 ^ 53" using big NT by simp
  define K where "K = int (?N - 2) * ?T"
  have K: "0 \<le> K" "K + ?T + ?T < 2 ^ 53" "\<bar>?A\<bar> \<le> K"
    using N2 big' A by (simp_all add: K_def)
  have T53: "?T < 2 ^ 53" "2 * B < 2 ^ 53" using K(1,2) T0 TB by linarith+
  have d1: "\<bar>snd (zs ! 0) - snd (zs ! (?N - 2))\<bar> < 2 ^ 53" using tb1(1) T53(2) by linarith
  have d2: "\<bar>snd (zs ! 1) - snd (zs ! (?N - 1))\<bar> < 2 ^ 53" using tb2(1) T53(2) by linarith
  have p1: "\<bar>?t1\<bar> < 2 ^ 53" using tb1(2) T53(1) by linarith
  have p2: "\<bar>?t2\<bar> < 2 ^ 53" using tb2(2) T53(1) by linarith
  have c0: "\<bar>?A\<bar> < 2 ^ 53" using K T0 by linarith
  have c1': "\<bar>?A + ?t1\<bar> \<le> K + ?T" using K(3) tb1(2) by (rule abs_sum_le)
  have c1: "\<bar>?A + ?t1\<bar> < 2 ^ 53" using c1' K(2) T0 by linarith
  have c2': "\<bar>?A + ?t1 + ?t2\<bar> \<le> K + ?T + ?T" using c1' tb2(2) by (rule abs_sum_le)
  have c2: "\<bar>?A + ?t1 + ?t2\<bar> < 2 ^ 53" using c2' K(2) by linarith
  have a1: "fadd (Fin (of_int ?A)) (fmul (Fin (of_int (fst (zs ! (?N - 1)))))
              (fsub (Fin (of_int (snd (zs ! 0)))) (Fin (of_int (snd (zs ! (?N - 2))))))) =
            Fin (of_int (?A + ?t1))"
    using d1 p1 c0 c1 by (rule shoelace_step)
  have a2: "fadd (Fin (of_int (?A + ?t1))) (fmul (Fin (of_int (fst (zs ! 0))))
              (fsub (Fin (of_int (snd (zs ! 1)))) (Fin (of_int (snd (zs ! (?N - 1))))))) =
            Fin (of_int (?A + ?t1 + ?t2))"
    using d2 p2 c1 c2 by (rule shoelace_step)
  have ix: "idx (zring zs) (int (length (zring zs)) - 1) = Inr (zring zs ! (?N - 1))"
    "idx (zring zs) 0 = Inr (zring zs ! 0)"
    "idx (zring zs) (int (length (zring zs)) - 1 - 1) = Inr (zring zs ! (?N - 2))"
    "idx (zring zs) 1 = Inr (zring zs ! 1)"
    using n by (auto simp add: idx_def zring_def nat_diff_distrib)
  have len: "length (zring zs) \<noteq> 0" using n by (cases zs) (simp_all add: zring_def)
  show ?thesis
    unfolding lineStringArea_def Let_def ix
    using len loop a1 a2 i0
    by (simp add: zring_nth ipt_def shoelaceZ_def)
qed

lemma areaLoopZ_sum:
  "areaLoopZ zs acc =
   acc + (\<Sum>i = 1..<length zs - 1. fst (zs ! i) * (snd (zs ! (i + 1)) - snd (zs ! (i - 1))))"
proof (induction zs acc rule: areaLoopZ.induct)
  case (1 a b c rest acc)
  let ?zs = "a # b # c # rest"
  let ?F = "\<lambda>i. fst (?zs ! i) * (snd (?zs ! (i + 1)) - snd (?zs ! (i - 1)))"
  let ?G = "\<lambda>i. fst ((b # c # rest) ! i) * (snd ((b # c # rest) ! (i + 1)) - snd ((b # c # rest) ! (i - 1)))"
  have "(\<Sum>i = 1..<length ?zs - 1. ?F i) = ?F 1 + (\<Sum>i = Suc 1..<Suc (Suc (length rest)). ?F i)"
    by (subst sum.atLeast_Suc_lessThan) simp_all
  also have "(\<Sum>i = Suc 1..<Suc (Suc (length rest)). ?F i) = (\<Sum>i = 1..<Suc (length rest). ?F (Suc i))"
    by (rule sum.shift_bounds_Suc_ivl)
  also have "\<dots> = (\<Sum>i = 1..<Suc (length rest). ?G i)"
    by (rule sum.cong) (auto simp add: nth_Cons')
  finally have "(\<Sum>i = 1..<length ?zs - 1. ?F i) = ?F 1 + (\<Sum>i = 1..<length (b # c # rest) - 1. ?G i)"
    by simp
  with "1.IH" show ?case by simp
qed simp_all

lemma shoelaceZ_rev:
  assumes "2 \<le> length zs"
  shows "shoelaceZ (rev zs) = - shoelaceZ zs"
proof -
  let ?N = "length zs"
  let ?X = "\<lambda>i. fst (zs ! i)" and ?Y = "\<lambda>i. snd (zs ! i)"
  let ?g = "\<lambda>j. ?X j * (?Y (j - 1) - ?Y (j + 1))"
  have r: "rev zs ! i = zs ! (?N - Suc i)" if "i < ?N" for i
    using that by (simp add: rev_nth)
  have "(\<Sum>i = 1..<?N - 1. fst (rev zs ! i) * (snd (rev zs ! (i + 1)) - snd (rev zs ! (i - 1)))) =
        (\<Sum>i = 1..<?N - 1. ?g (?N - 1 + 1 - Suc i))"
  proof (rule sum.cong)
    fix i assume "i \<in> {1..<?N - 1}"
    then have i: "1 \<le> i" "i < ?N - 1" by simp_all
    then have "i < ?N" "i + 1 < ?N" "i - 1 < ?N" by simp_all
    then have "rev zs ! i = zs ! (?N - Suc i)" "rev zs ! (i + 1) = zs ! (?N - Suc (i + 1))"
      "rev zs ! (i - 1) = zs ! (?N - Suc (i - 1))" by (simp_all only: r)
    moreover have "?N - 1 + 1 - Suc i = ?N - Suc i" "?N - Suc i - 1 = ?N - Suc (i + 1)"
      "?N - Suc i + 1 = ?N - Suc (i - 1)" using i by simp_all
    ultimately show "fst (rev zs ! i) * (snd (rev zs ! (i + 1)) - snd (rev zs ! (i - 1))) =
        ?g (?N - 1 + 1 - Suc i)" by simp
  qed simp
  also have "\<dots> = (\<Sum>j = 1..<?N - 1. ?g j)"
    by (rule sum.atLeastLessThan_rev [symmetric])
  also have "\<dots> = - (\<Sum>j = 1..<?N - 1. ?X j * (?Y (j + 1) - ?Y (j - 1)))"
    by (simp add: sum_negf [symmetric] algebra_simps)
  finally have loop: "areaLoopZ (rev zs) 0 = - areaLoopZ zs 0"
    by (simp add: areaLoopZ_sum)
  have "0 < ?N \<and> 1 < ?N \<and> ?N - 1 < ?N \<and> ?N - 2 < ?N" using assms by linarith
  then have ne: "0 < ?N" "1 < ?N" "?N - 1 < ?N" "?N - 2 < ?N" by blast+
  have k: "?N - Suc (?N - 1) = 0 \<and> ?N - Suc 0 = ?N - 1 \<and> ?N - Suc (?N - 2) = 1 \<and>
      ?N - Suc 1 = ?N - 2" using assms by auto
  have e: "rev zs ! (?N - 1) = zs ! 0" "rev zs ! 0 = zs ! (?N - 1)"
    "rev zs ! (?N - 2) = zs ! 1" "rev zs ! 1 = zs ! (?N - 2)"
    using r [OF ne(3)] r [OF ne(1)] r [OF ne(4)] r [OF ne(2)] k by (simp_all only:)
  show ?thesis
    unfolding shoelaceZ_def loop length_rev e by (simp add: algebra_simps)
qed

lemma fabs_fround_minus: "fabs (fround neg (- q)) = fabs (fround neg' q)"
  by (auto simp add: fround_def Let_def fzero_def finf_def)

lemma fabs_half_minus:
  "fabs (fdiv (Fin (of_int (- s))) (Fin 2)) = fabs (fdiv (Fin (of_int s)) (Fin 2))"
  using fabs_fround_minus [of _ "of_int s / 2"] by (simp add: fdiv_def)

lemma coordsWithin_rev: "coordsWithin B (rev zs) = coordsWithin B zs"
  by (simp add: coordsWithin_def)

lemma zring_rev: "rev (zring zs) = zring (rev zs)"
  by (simp add: zring_def rev_map)

lemma lineStringArea_rev_zring:
  assumes b: "coordsWithin B zs" and B: "1 \<le> B" and big: "int (length zs) * (2 * B * B) < 2 ^ 53"
  shows "lineStringArea (rev (zring zs)) = lineStringArea (zring zs)"
proof (cases "2 \<le> length zs")
  case True
  have b': "coordsWithin B (rev zs)" using b by (simp add: coordsWithin_rev)
  have n': "2 \<le> length (rev zs)" using True by simp
  have big': "int (length (rev zs)) * (2 * B * B) < 2 ^ 53" using big by simp
  show ?thesis
    unfolding zring_rev lineStringArea_int [OF b' n' B big'] lineStringArea_int [OF b True B big]
      shoelaceZ_rev [OF True]
    by (simp only: fabs_half_minus)
next
  case False
  then consider "zs = []" | z where "zs = [z]"
    by (cases zs; cases "tl zs") auto
  then show ?thesis by cases (simp_all add: zring_def)
qed

lemma holesArea_map:
  "map lineStringArea hs = map lineStringArea hs' \<Longrightarrow> holesArea hs a = holesArea hs' a"
proof (induction hs arbitrary: hs' a)
  case Nil
  then show ?case by simp
next
  case (Cons h hs)
  then obtain h' hs'' where q: "hs' = h' # hs''" "lineStringArea h = lineStringArea h'"
    "map lineStringArea hs = map lineStringArea hs''" by (cases hs') auto
  with Cons.IH show ?case by (simp split: sum.splits)
qed

lemma Area_map:
  assumes "map lineStringArea p = map lineStringArea q"
  shows "Area p = Area q"
proof (cases p)
  case Nil
  with assms show ?thesis by simp
next
  case (Cons outer hs)
  with assms obtain outer' hs' where q: "q = outer' # hs'"
    "lineStringArea outer = lineStringArea outer'"
    "map lineStringArea hs = map lineStringArea hs'" by (cases q) auto
  with Cons holesArea_map [OF q(3)] show ?thesis
    by (simp add: Area_def idx_def split: sum.splits)
qed

subsection \<open>Rounding\<close>

lemma bitlen_pos: "0 < n \<Longrightarrow> 0 < bitlen n"
  using bitlen_bounds [of n] by (cases "0 < bitlen n") auto

lemma ilog2_bounds:
  assumes "0 < a"
  shows "2 powi (ilog2 a) \<le> a \<and> a < 2 powi (ilog2 a + 1)"
proof (cases "1 \<le> a")
  case True
  define n where "n = \<lfloor>a\<rfloor>"
  have n: "0 < n" using True by (simp add: n_def)
  have b: "2 ^ nat (bitlen n - 1) \<le> n \<and> n < 2 ^ nat (bitlen n)"
    using n by (rule bitlen_bounds)
  have bl: "0 < bitlen n" using n by (rule bitlen_pos)
  have i: "ilog2 a = bitlen n - 1" using True by (simp add: ilog2_def n_def)
  have p1: "(2::real) powi (bitlen n - 1) = of_int (2 ^ nat (bitlen n - 1))"
    using bl by (simp add: power_int_def)
  have p2: "(2::real) powi (bitlen n - 1 + 1) = of_int (2 ^ nat (bitlen n))"
    using bl by (simp add: power_int_def)
  have "of_int (2 ^ nat (bitlen n - 1)) \<le> (of_int n :: real)" using b by (metis of_int_le_iff)
  also have "\<dots> \<le> a" by (simp add: n_def)
  finally have lo: "2 powi (ilog2 a) \<le> a" by (simp only: i p1)
  have "n + 1 \<le> 2 ^ nat (bitlen n)" using b by simp
  then have "(of_int (n + 1) :: real) \<le> of_int (2 ^ nat (bitlen n))" by (metis of_int_le_iff)
  moreover have "a < of_int (n + 1)" unfolding n_def by linarith
  ultimately have "a < 2 powi (ilog2 a + 1)" by (simp only: i p2)
  with lo show ?thesis by simp
next
  case False
  define n where "n = \<lfloor>1 / a\<rfloor>"
  define k where "k = bitlen n - 1"
  have a1: "a < 1" using False by simp
  then have "1 < 1 / a" using assms by simp
  then have n: "0 < n" by (simp add: n_def)
  have b: "2 ^ nat (bitlen n - 1) \<le> n \<and> n < 2 ^ nat (bitlen n)"
    using n by (rule bitlen_bounds)
  have bl: "0 < bitlen n" using n by (rule bitlen_pos)
  have k0: "0 \<le> k" using bl by (simp add: k_def)
  have p1: "(2::real) powi k = of_int (2 ^ nat (bitlen n - 1))"
    using bl by (simp add: power_int_def k_def)
  have p2: "(2::real) powi (k + 1) = of_int (2 ^ nat (bitlen n))"
    using bl by (simp add: power_int_def k_def)
  have "of_int (2 ^ nat (bitlen n - 1)) \<le> (of_int n :: real)" using b by (metis of_int_le_iff)
  also have "\<dots> \<le> 1 / a" by (simp add: n_def)
  finally have lo: "2 powi k \<le> 1 / a" by (simp only: p1)
  have "n + 1 \<le> 2 ^ nat (bitlen n)" using b by simp
  then have "(of_int (n + 1) :: real) \<le> of_int (2 ^ nat (bitlen n))" by (metis of_int_le_iff)
  moreover have "1 / a < of_int (n + 1)" unfolding n_def by linarith
  ultimately have hi: "1 / a < 2 powi (k + 1)" by (simp only: p2)
  have pk: "(0::real) < 2 powi k" "(0::real) < 2 powi (k + 1)" by simp_all
  have lo': "a * 2 powi k \<le> 1" using lo assms pk by (simp add: field_simps)
  have hi': "1 < a * 2 powi (k + 1)" using hi assms pk by (simp add: field_simps)
  have m1: "(2::real) powi (- k) = 1 / 2 powi k" by (simp add: power_int_minus field_simps)
  have m2: "(2::real) powi (- k - 1) = 1 / 2 powi (k + 1)"
  proof -
    have "- k - 1 = - (k + 1)" by simp
    then show ?thesis by (simp only: power_int_minus inverse_eq_divide)
  qed
  have m3: "(2::real) powi (- k - 1 + 1) = 1 / 2 powi k" by (simp add: power_int_minus field_simps)
  have m4: "(2::real) powi (- k + 1) = 2 / 2 powi k"
  proof -
    have "(2::real) powi (- k + 1) = 2 powi (- k) * 2 powi 1" by (rule power_int_add) simp
    then show ?thesis by (simp add: m1)
  qed
  show ?thesis
  proof (cases "a * 2 powi k = 1")
    case True
    have i: "ilog2 a = - k" using False True by (simp add: ilog2_def n_def k_def Let_def)
    have "a = 1 / 2 powi k" using True pk by (simp add: field_simps)
    moreover have "1 / 2 powi k < (2::real) / 2 powi k" using pk(1) by (simp add: divide_strict_right_mono)
    ultimately show ?thesis unfolding i m1 m4 by simp
  next
    case ne: False
    have i: "ilog2 a = - k - 1" using False ne by (simp add: ilog2_def n_def k_def Let_def)
    have "a * 2 powi k < 1" using lo' ne by simp
    then have "a < 1 / 2 powi k" using pk by (simp add: field_simps)
    moreover have "1 / 2 powi (k + 1) < a" using hi' pk by (simp add: field_simps)
    ultimately show ?thesis unfolding i m2 m3 by simp
  qed
qed

lemma powi_mono2: "k \<le> l \<Longrightarrow> (2::real) powi k \<le> 2 powi l"
  by (rule power_int_increasing) simp_all


lemma rne_bounds: "\<bar>of_int (rne m) - m\<bar> \<le> 1 / 2"
  unfolding rne_def Let_def by (simp; linarith)

lemma rne_ge1: "1 \<le> m \<Longrightarrow> 1 \<le> rne m"
  unfolding rne_def Let_def by (simp; linarith)

lemma fround_unit:
  assumes "2 powi (- 1074) \<le> a"
  shows "1 \<le> rne (a / 2 powi (max (ilog2 a) (- 1022) - 52))"
proof -
  define e where "e = max (ilog2 a) (- 1022)"
  have "(0::real) < 2 powi (- 1074)" by simp
  with assms have pos: "0 < a" by linarith
  have u: "2 powi (e - 52) \<le> a"
  proof (cases "- 1022 \<le> ilog2 a")
    case True
    then have "e = ilog2 a" by (simp add: e_def)
    moreover have "(2::real) powi (ilog2 a - 52) \<le> 2 powi (ilog2 a)" by (rule powi_mono2) simp
    ultimately show ?thesis using ilog2_bounds [OF pos] by simp
  next
    case False
    then have "e = - 1022" by (simp add: e_def)
    then show ?thesis using assms by simp
  qed
  have "(0::real) < 2 powi (e - 52)" by simp
  with u have "1 \<le> a / 2 powi (e - 52)" by (simp add: field_simps)
  then show ?thesis unfolding e_def by (rule rne_ge1)
qed

lemma fround_cases:
  assumes "q \<noteq> 0"
  obtains r :: real where "r = of_int (rne (\<bar>q\<bar> / 2 powi (max (ilog2 \<bar>q\<bar>) (- 1022) - 52))) *
          2 powi (max (ilog2 \<bar>q\<bar>) (- 1022) - 52)"
    and "fround neg q = finf (q < 0) \<or> (r = 0 \<and> fround neg q = fzero (q < 0)) \<or>
         (r \<noteq> 0 \<and> fround neg q = Fin (if q < 0 then - r else r))"
proof -
  define r :: real where "r = of_int (rne (\<bar>q\<bar> / 2 powi (max (ilog2 \<bar>q\<bar>) (- 1022) - 52))) *
          2 powi (max (ilog2 \<bar>q\<bar>) (- 1022) - 52)"
  define M where "M = (2::real) powi 1024"
  have "fround neg q = (if M \<le> r then finf (q < 0) else if r = 0 then fzero (q < 0)
      else Fin (if q < 0 then - r else r))"
    unfolding r_def M_def using assms by (simp only: fround_def Let_def if_False)
  then have "fround neg q = finf (q < 0) \<or> (r = 0 \<and> fround neg q = fzero (q < 0)) \<or>
         (r \<noteq> 0 \<and> fround neg q = Fin (if q < 0 then - r else r))"
    by (cases "M \<le> r"; cases "r = 0") simp_all
  with r_def show ?thesis by (rule that)
qed

lemma fround_sign_neg:
  assumes "q \<le> - (2 powi (- 1074))"
  shows "fround neg q = NegInf \<or> (\<exists>r. fround neg q = Fin r \<and> r < 0)"
proof -
  have p: "(0::real) < 2 powi (- 1074)" by simp
  with assms have q: "q < 0" "q \<noteq> 0" by linarith+
  have a: "2 powi (- 1074) \<le> \<bar>q\<bar>" using assms by simp
  from q(2) obtain r :: real where r: "r = of_int (rne (\<bar>q\<bar> / 2 powi (max (ilog2 \<bar>q\<bar>) (- 1022) - 52))) *
          2 powi (max (ilog2 \<bar>q\<bar>) (- 1022) - 52)"
    and f: "fround neg q = finf (q < 0) \<or> (r = 0 \<and> fround neg q = fzero (q < 0)) \<or>
         (r \<noteq> 0 \<and> fround neg q = Fin (if q < 0 then - r else r))"
    by (rule fround_cases)
  have "1 \<le> rne (\<bar>q\<bar> / 2 powi (max (ilog2 \<bar>q\<bar>) (- 1022) - 52))" using a by (rule fround_unit)
  then have "(1::real) \<le> of_int (rne (\<bar>q\<bar> / 2 powi (max (ilog2 \<bar>q\<bar>) (- 1022) - 52)))" by linarith
  moreover have "(0::real) < 2 powi (max (ilog2 \<bar>q\<bar>) (- 1022) - 52)" by simp
  ultimately have r0: "0 < r" unfolding r by (simp only: mult_pos_pos zero_less_one less_le_trans)
  from f r0 q show ?thesis by (auto simp add: finf_def)
qed

lemma fround_sign_pos:
  assumes "2 powi (- 1074) \<le> q"
  shows "fround neg q = PosInf \<or> (\<exists>r. fround neg q = Fin r \<and> 0 < r)"
proof -
  have p: "(0::real) < 2 powi (- 1074)" by simp
  with assms have q: "\<not> q < 0" "q \<noteq> 0" by linarith+
  have a: "2 powi (- 1074) \<le> \<bar>q\<bar>" using assms by simp
  from q(2) obtain r :: real where r: "r = of_int (rne (\<bar>q\<bar> / 2 powi (max (ilog2 \<bar>q\<bar>) (- 1022) - 52))) *
          2 powi (max (ilog2 \<bar>q\<bar>) (- 1022) - 52)"
    and f: "fround neg q = finf (q < 0) \<or> (r = 0 \<and> fround neg q = fzero (q < 0)) \<or>
         (r \<noteq> 0 \<and> fround neg q = Fin (if q < 0 then - r else r))"
    by (rule fround_cases)
  have "1 \<le> rne (\<bar>q\<bar> / 2 powi (max (ilog2 \<bar>q\<bar>) (- 1022) - 52))" using a by (rule fround_unit)
  then have "(1::real) \<le> of_int (rne (\<bar>q\<bar> / 2 powi (max (ilog2 \<bar>q\<bar>) (- 1022) - 52)))" by linarith
  moreover have "(0::real) < 2 powi (max (ilog2 \<bar>q\<bar>) (- 1022) - 52)" by simp
  ultimately have r0: "0 < r" unfolding r by (simp only: mult_pos_pos zero_less_one less_le_trans)
  from f r0 q show ?thesis by (auto simp add: finf_def)
qed

lemma rne_nonneg: "0 \<le> m \<Longrightarrow> 0 \<le> rne m"
  unfolding rne_def Let_def by (simp; linarith)

lemma fround_nonneg:
  assumes "0 \<le> q"
  shows "fge (fround neg q) (Fin 0)"
proof (cases "q = 0")
  case True
  then show ?thesis by (simp add: fzero_def fcompare)
next
  case False
  with assms have q: "\<not> q < 0" by simp
  from False obtain r :: real where r: "r = of_int (rne (\<bar>q\<bar> / 2 powi (max (ilog2 \<bar>q\<bar>) (- 1022) - 52))) *
          2 powi (max (ilog2 \<bar>q\<bar>) (- 1022) - 52)"
    and f: "fround neg q = finf (q < 0) \<or> (r = 0 \<and> fround neg q = fzero (q < 0)) \<or>
         (r \<noteq> 0 \<and> fround neg q = Fin (if q < 0 then - r else r))"
    by (rule fround_cases)
  have "0 \<le> \<bar>q\<bar> / 2 powi (max (ilog2 \<bar>q\<bar>) (- 1022) - 52)" by simp
  then have "0 \<le> rne (\<bar>q\<bar> / 2 powi (max (ilog2 \<bar>q\<bar>) (- 1022) - 52))" by (rule rne_nonneg)
  then have r0: "0 \<le> r" unfolding r by simp
  from f r0 q show ?thesis by (auto simp add: finf_def fzero_def fcompare)
qed

lemma fround_grid: "\<exists>n::int. fval (fround neg q) = of_int n * 2 powi (- 1074)"
proof (cases "q = 0")
  case True
  then show ?thesis by (simp add: fzero_def)
next
  case False
  then obtain r :: real where r: "r = of_int (rne (\<bar>q\<bar> / 2 powi (max (ilog2 \<bar>q\<bar>) (- 1022) - 52))) *
          2 powi (max (ilog2 \<bar>q\<bar>) (- 1022) - 52)"
    and f: "fround neg q = finf (q < 0) \<or> (r = 0 \<and> fround neg q = fzero (q < 0)) \<or>
         (r \<noteq> 0 \<and> fround neg q = Fin (if q < 0 then - r else r))"
    by (rule fround_cases)
  define e where "e = max (ilog2 \<bar>q\<bar>) (- 1022)"
  define k where "k = rne (\<bar>q\<bar> / 2 powi (e - 52))"
  have e: "0 \<le> e + 1022" by (simp add: e_def)
  have "e - 52 = (e + 1022) + (- 1074)" by simp
  then have "(2::real) powi (e - 52) = 2 powi (e + 1022) * 2 powi (- 1074)"
    by (simp only: power_int_add [of "2::real", simplified])
  also have "(2::real) powi (e + 1022) = of_int (2 ^ nat (e + 1022))"
    using e by (simp add: power_int_def)
  finally have u: "(2::real) powi (e - 52) = of_int (2 ^ nat (e + 1022)) * 2 powi (- 1074)" .
  have "r = of_int k * 2 powi (e - 52)" unfolding r k_def e_def by (rule refl)
  then have r': "r = of_int (k * 2 ^ nat (e + 1022)) * 2 powi (- 1074)"
    unfolding u by (simp only: of_int_mult mult.assoc)
  have mr: "- r = of_int (- (k * 2 ^ nat (e + 1022))) * 2 powi (- 1074)"
    unfolding r' by (simp only: of_int_minus mult_minus_left)
  have z: "(0::real) = of_int 0 * 2 powi (- 1074)" by simp
  from f consider "fval (fround neg q) = 0" | "fval (fround neg q) = r" | "fval (fround neg q) = - r"
    by (cases "q < 0") (auto simp add: finf_def fzero_def)
  then show ?thesis
  proof cases
    case 1 then show ?thesis using z by metis
  next
    case 2 then show ?thesis using r' by metis
  next
    case 3 then show ?thesis using mr by metis
  qed
qed

lemma fval_fneg: "fval (fneg y) = - fval y"
  by (cases y) simp_all

lemma fsub_grid: "\<exists>n::int. fval (fsub x y) = of_int n * 2 powi (- 1074)"
proof -
  have z: "\<exists>n::int. (0::real) = of_int n * 2 powi (- 1074)" by (rule exI [of _ 0]) simp
  consider "fsub x y = fround (signbit x \<and> signbit (fneg y)) (fval x + fval (fneg y))"
    | "fval (fsub x y) = 0"
    by (cases x; cases y) (auto simp add: fsub_def fadd_def)
  then show ?thesis
  proof cases
    case 1 then show ?thesis using fround_grid by simp
  next
    case 2 then show ?thesis using z by simp
  qed
qed

lemma fsub_negative:
  assumes gx: "fval x = of_int n * 2 powi (- 1074)" and gy: "fval y = of_int m * 2 powi (- 1074)"
    and lt: "flt x y"
  shows "flt (fsub x y) (Fin 0)"
proof (cases "isInf x \<or> isInf y")
  case True
  then show ?thesis using lt by (cases x; cases y) (simp_all add: fsub_def fadd_def fcompare)
next
  case False
  define g where "g = (2::real) powi (- 1074)"
  have g0: "0 < g" by (simp add: g_def)
  from lt False have n: "x \<noteq> NaN" "y \<noteq> NaN" "\<not> isInf x" "\<not> isInf y" by (simp_all add: fcompare)
  have cx: "fclass x = 0" using n by (cases x) simp_all
  have cy: "fclass y = 0" using n by (cases y) simp_all
  note c = cx cy
  with lt have v: "fval x < fval y" by (simp add: fcompare)
  then have "of_int n * g < of_int m * g" using gx gy by (simp only: g_def)
  then have "n < m" using g0 by simp
  then have "n - m \<le> - 1" by simp
  then have "(of_int (n - m) :: real) \<le> - 1" by (metis of_int_le_iff of_int_minus of_int_1)
  then have "of_int (n - m) * g \<le> - 1 * g" using g0 by (intro mult_right_mono) simp_all
  moreover have "fval x + fval (fneg y) = of_int (n - m) * g"
    unfolding fval_fneg gx gy g_def [symmetric] by (simp add: algebra_simps)
  ultimately have q: "fval x + fval (fneg y) \<le> - (2 powi (- 1074))"
    by (simp only: g_def mult_minus_left mult_1)
  have ny: "fneg y \<noteq> NaN \<and> \<not> isInf (fneg y)" using n by (cases y) simp_all
  have "fsub x y = fround (signbit x \<and> signbit (fneg y)) (fval x + fval (fneg y))"
    using n ny by (simp add: fsub_def fadd_def)
  with fround_sign_neg [OF q, of "signbit x \<and> signbit (fneg y)"]
  have "fsub x y = NegInf \<or> (\<exists>r. fsub x y = Fin r \<and> r < 0)" by simp
  then show ?thesis by (auto simp add: fcompare)
qed

lemma fsub_not_negative:
  assumes "\<not> flt x y" and "x \<noteq> NaN" and "y \<noteq> NaN"
  shows "fsub x y = NaN \<or> fge (fsub x y) (Fin 0)"
proof (cases "isInf x \<or> isInf y")
  case True
  then show ?thesis using assms by (cases x; cases y) (simp_all add: fsub_def fadd_def fcompare)
next
  case False
  then have n: "\<not> isInf x" "\<not> isInf y" by simp_all
  have cx: "fclass x = 0" using n by (cases x) simp_all
  have cy: "fclass y = 0" using n by (cases y) simp_all
  note c = cx cy
  with assms have v: "0 \<le> fval x + fval (fneg y)" by (simp add: fcompare fval_fneg)
  have ny: "fneg y \<noteq> NaN \<and> \<not> isInf (fneg y)" using n assms by (cases y) simp_all
  have "fsub x y = fround (signbit x \<and> signbit (fneg y)) (fval x + fval (fneg y))"
    using n ny assms by (simp add: fsub_def fadd_def)
  with fround_nonneg [OF v] show ?thesis by simp
qed

subsection \<open>The sign of the area\<close>

lemma fdiv_grid: "\<exists>n::int. fval (fdiv x y) = of_int n * 2 powi (- 1074)"
proof -
  have z: "\<exists>n::int. (0::real) = of_int n * 2 powi (- 1074)" by (rule exI [of _ 0]) simp
  have "fdiv x y = fround (signbit x \<noteq> signbit y) (fval x / fval y) \<or> fval (fdiv x y) = 0"
    by (simp add: fdiv_def Let_def finf_def fzero_def)
  then show ?thesis
  proof
    assume "fdiv x y = fround (signbit x \<noteq> signbit y) (fval x / fval y)"
    then show ?thesis using fround_grid by simp
  next
    assume "fval (fdiv x y) = 0"
    then show ?thesis using z by simp
  qed
qed

lemma fabs_grid:
  assumes "\<exists>n::int. fval x = of_int n * 2 powi (- 1074)"
  shows "\<exists>n::int. fval (fabs x) = of_int n * 2 powi (- 1074)"
proof -
  from assms obtain n :: int where n: "fval x = of_int n * 2 powi (- 1074)" by blast
  have "fval (fabs x) = \<bar>fval x\<bar>" by (cases x) simp_all
  also have "\<dots> = of_int \<bar>n\<bar> * 2 powi (- 1074)" unfolding n by (simp only: abs_mult of_int_abs) simp
  finally show ?thesis by blast
qed

lemma lineStringArea_grid:
  assumes "lineStringArea ls = Inr a"
  shows "\<exists>n::int. fval a = of_int n * 2 powi (- 1074)"
proof (cases "length ls = 0")
  case True
  with assms have "a = Fin 0" by (simp add: lineStringArea_def)
  then show ?thesis by (intro exI [of _ 0]) simp
next
  case False
  with assms obtain x where "a = fabs (fdiv x (Fin 2))"
    by (auto simp add: lineStringArea_def Let_def split: sum.splits)
  then show ?thesis using fabs_grid [OF fdiv_grid] by simp
qed

lemma fsub_NaN: "fsub NaN y = NaN" "fsub x NaN = NaN"
  by (simp_all add: fsub_def fadd_def)

lemma holesArea_NaN: "holesArea hs NaN = Inr a \<Longrightarrow> a = NaN"
  by (induction hs) (auto simp add: fsub_NaN split: sum.splits)

lemma fge_not_flt: "fge x y \<Longrightarrow> \<not> flt x y"
  by (auto simp add: fcompare)

lemma fle_not_flt: "fle x y \<Longrightarrow> \<not> flt y x"
  by (auto simp add: fcompare)

lemma flt_not_fge: "flt x y \<Longrightarrow> \<not> fge x y"
  by (auto simp add: fcompare)

lemma holesArea_negative:
  assumes "holesArea hs r = Inr a" and "a \<noteq> NaN" and "flt r (Fin 0)"
    and "\<exists>n::int. fval r = of_int n * 2 powi (- 1074)"
  shows "flt a (Fin 0)"
  using assms
proof (induction hs arbitrary: r)
  case Nil
  then show ?case by simp
next
  case (Cons h hs)
  from Cons.prems(1) obtain ha where ha: "lineStringArea h = Inr ha"
    and rest: "holesArea hs (fsub r ha) = Inr a" by (auto split: sum.splits)
  have n: "ha \<noteq> NaN" using rest Cons.prems(2) holesArea_NaN by (auto simp add: fsub_NaN)
  with lineStringArea_nonneg [OF ha] have "fge ha (Fin 0)" by simp
  then have "fle (Fin 0) ha" by (simp add: fge_def)
  with Cons.prems(3) have lt: "flt r ha" by (rule flt_fle_trans)
  from Cons.prems(4) obtain k :: int where k: "fval r = of_int k * 2 powi (- 1074)" by blast
  from lineStringArea_grid [OF ha] obtain m :: int where m: "fval ha = of_int m * 2 powi (- 1074)"
    by blast
  have "flt (fsub r ha) (Fin 0)" using k m lt by (rule fsub_negative)
  with rest Cons.prems(2) show ?case using fsub_grid by (rule Cons.IH)
qed

lemma holesArea_sign:
  assumes "holesArea hs r = Inr a" and "a \<noteq> NaN" and "fge r (Fin 0)"
    and "\<exists>n::int. fval r = of_int n * 2 powi (- 1074)"
  shows "fge a (Fin 0) = holesFit hs r \<and> flt a (Fin 0) = (\<not> holesFit hs r)"
  using assms
proof (induction hs arbitrary: r)
  case Nil
  then have "a = r" by simp
  with Nil.prems(3) show ?case using fge_not_flt [of r "Fin 0"] by simp
next
  case (Cons h hs)
  from Cons.prems(1) obtain ha where ha: "lineStringArea h = Inr ha"
    and rest: "holesArea hs (fsub r ha) = Inr a" by (auto split: sum.splits)
  have n: "ha \<noteq> NaN" using rest Cons.prems(2) holesArea_NaN by (auto simp add: fsub_NaN)
  have rn: "r \<noteq> NaN" using Cons.prems(3) by (auto simp add: fcompare)
  from Cons.prems(4) obtain k :: int where k: "fval r = of_int k * 2 powi (- 1074)" by blast
  from lineStringArea_grid [OF ha] obtain m :: int where m: "fval ha = of_int m * 2 powi (- 1074)"
    by blast
  show ?case
  proof (cases "flt r ha")
    case True
    have "flt (fsub r ha) (Fin 0)" using k m True by (rule fsub_negative)
    with rest Cons.prems(2) have neg: "flt a (Fin 0)" using fsub_grid by (rule holesArea_negative)
    then have nge: "\<not> fge a (Fin 0)" by (rule flt_not_fge)
    have "\<not> fle ha r" using True fle_not_flt by blast
    then have "\<not> holesFit (h # hs) r" by (simp add: ha)
    with neg nge show ?thesis by simp
  next
    case False
    then have le: "fle ha r" using rn n by (rule not_flt_fle)
    have "fsub r ha \<noteq> NaN" using rest Cons.prems(2) holesArea_NaN by auto
    with fsub_not_negative [OF False rn n] have "fge (fsub r ha) (Fin 0)" by simp
    with rest Cons.prems(2) have
      "fge a (Fin 0) = holesFit hs (fsub r ha) \<and> flt a (Fin 0) = (\<not> holesFit hs (fsub r ha))"
      using fsub_grid by (rule Cons.IH)
    then show ?thesis using le by (simp add: ha)
  qed
qed

lemma Area_Cons:
  "Area (outer # holes) =
     (case lineStringArea outer of Inl err \<Rightarrow> Inl err | Inr area \<Rightarrow> holesArea holes area)"
  by (cases "lineStringArea outer") (simp_all add: Area_def idx_def)

subsection \<open>Points on a segment\<close>


lemma fround_sign_irrelevant: "q \<noteq> 0 \<Longrightarrow> fround neg q = fround neg' q"
  by (simp only: fround_def if_False)



































subsection \<open>The store\<close>

lemma frame_refl: "frame \<sigma> \<sigma>"
  by (simp add: frame_def)

lemma frame_trans: "frame \<sigma> \<sigma>' \<Longrightarrow> frame \<sigma>' \<sigma>'' \<Longrightarrow> frame \<sigma> \<sigma>''"
  by (auto simp add: frame_def)

lemma frame_alloc: "frame \<sigma> (snd (alloc v \<sigma>))"
  by (simp add: frame_def alloc_def)

lemma frame_assign: "frame \<sigma>0 \<sigma> \<Longrightarrow> limit \<sigma>0 \<le> a \<Longrightarrow> frame \<sigma>0 (assign a v \<sigma>)"
  by (auto simp add: frame_def assign_def)

lemma cells_assign: "cells (assign a v \<sigma>) b = (if b = a then v else cells \<sigma> b)"
  by (simp add: assign_def)

lemma limit_assign: "limit (assign a v \<sigma>) = limit \<sigma>"
  by (simp add: assign_def)

lemma rayIntersect_body_result:
  assumes d: "p \<noteq> s" "p \<noteq> e" "s \<noteq> e"
  shows "fst (rayIntersect_body p s e \<sigma>) = rayIntersect (cells \<sigma> p) (cells \<sigma> s) (cells \<sigma> e)"
proof (cases "fgt (fst (cells \<sigma> s)) (fst (cells \<sigma> e))")
  case True
  have c: "cells (exchange s e \<sigma>) p = cells \<sigma> p" "cells (exchange s e \<sigma>) s = cells \<sigma> e"
    "cells (exchange s e \<sigma>) e = cells \<sigma> s"
    using d by (simp_all add: exchange_def cells_assign)
  show ?thesis
    unfolding rayIntersect_body_def rayIntersect_def Let_def
    using True d by (simp add: c cells_assign)
next
  case False
  show ?thesis
    unfolding rayIntersect_body_def rayIntersect_def Let_def
    using False d by (simp add: cells_assign)
qed

lemma rayIntersect_body_frame:
  assumes "limit \<sigma>0 \<le> p" "limit \<sigma>0 \<le> s" "limit \<sigma>0 \<le> e" and "frame \<sigma>0 \<sigma>"
  shows "frame \<sigma>0 (snd (rayIntersect_body p s e \<sigma>))"
proof -
  have x: "frame \<sigma>0 (exchange s e \<sigma>)"
    unfolding exchange_def using assms by (intro frame_assign)
  define \<sigma>4 where "\<sigma>4 = (if fgt (fst (cells \<sigma> s)) (fst (cells \<sigma> e)) then exchange s e \<sigma> else \<sigma>)"
  have f4: "frame \<sigma>0 \<sigma>4" using x assms(4) by (simp add: \<sigma>4_def)
  have f5: "frame \<sigma>0 (assign p v \<sigma>4)" for v using f4 assms(1) by (rule frame_assign)
  show ?thesis
    unfolding rayIntersect_body_def Let_def \<sigma>4_def [symmetric]
    using f4 f5 by simp
qed

lemma rayIntersect_s_result: "fst (rayIntersect_s pv sv ev \<sigma>) = rayIntersect pv sv ev"
  by (simp add: rayIntersect_s_def alloc_def rayIntersect_body_result)

lemma rayIntersect_s_frame: "frame \<sigma> (snd (rayIntersect_s pv sv ev \<sigma>))"
proof -
  have "frame \<sigma> (snd (alloc ev (snd (alloc sv (snd (alloc pv \<sigma>))))))"
    by (blast intro: frame_trans frame_alloc)
  then show ?thesis
    by (simp add: rayIntersect_s_def alloc_def rayIntersect_body_frame)
qed

lemma elems_frame: "frame \<sigma> \<sigma>' \<Longrightarrow> allocated \<sigma> ls \<Longrightarrow> elems \<sigma>' ls = elems \<sigma> ls"
  by (simp add: frame_def allocated_def elems_def)

lemma allocated_frame: "frame \<sigma> \<sigma>' \<Longrightarrow> allocated \<sigma> ls \<Longrightarrow> allocated \<sigma>' ls"
  by (simp add: frame_def allocated_def)

lemma length_elems: "length (elems \<sigma> ls) = snd ls"
  by (simp add: elems_def)

lemma nth_elems: "i < snd ls \<Longrightarrow> elems \<sigma> ls ! i = cells \<sigma> (fst ls + i)"
  by (simp add: elems_def)

lemma segmentsLoop_short: "length xs \<le> 1 \<Longrightarrow> segmentsLoop point xs c = c"
  by (cases xs; cases "tl xs") auto

lemma segmentsLoop_s_spec:
  assumes "allocated \<sigma> (b, n)"
  shows "fst (segmentsLoop_s point b [i..<n - 1] c \<sigma>) =
           segmentsLoop point (drop i (elems \<sigma> (b, n))) c \<and>
         frame \<sigma> (snd (segmentsLoop_s point b [i..<n - 1] c \<sigma>))"
  using assms
proof (induction "n - 1 - i" arbitrary: i c \<sigma>)
  case 0
  then have e: "[i..<n - 1] = []" by simp
  from 0 have "length (drop i (elems \<sigma> (b, n))) \<le> 1" by (simp add: length_elems)
  then have "segmentsLoop point (drop i (elems \<sigma> (b, n))) c = c"
    by (rule segmentsLoop_short)
  then show ?case unfolding e by (simp add: frame_refl)
next
  case (Suc k)
  then have i: "i < n - 1" "Suc i < n" "i < n" by simp_all
  then have e: "[i..<n - 1] = i # [Suc i..<n - 1]" by (simp add: upt_conv_Cons)
  let ?ls = "elems \<sigma> (b, n)"
  have d: "drop i ?ls = cells \<sigma> (b + i) # cells \<sigma> (b + i + 1) # drop (Suc (Suc i)) ?ls"
    using i Cons_nth_drop_Suc [of i ?ls] Cons_nth_drop_Suc [of "Suc i" ?ls]
    by (simp add: length_elems nth_elems)
  have d1: "drop (Suc i) ?ls = cells \<sigma> (b + i + 1) # drop (Suc (Suc i)) ?ls"
    using i Cons_nth_drop_Suc [of "Suc i" ?ls] by (simp add: length_elems nth_elems)
  obtain inter on \<sigma>1 where
    R: "rayIntersect_s point (cells \<sigma> (b + i)) (cells \<sigma> (b + i + 1)) \<sigma> = ((inter, on), \<sigma>1)"
    by (metis surj_pair)
  have f: "frame \<sigma> \<sigma>1"
    using rayIntersect_s_frame [of \<sigma> point "cells \<sigma> (b + i)" "cells \<sigma> (b + i + 1)"]
    unfolding R by simp
  have r: "rayIntersect point (cells \<sigma> (b + i)) (cells \<sigma> (b + i + 1)) = (inter, on)"
    using rayIntersect_s_result [of point "cells \<sigma> (b + i)" "cells \<sigma> (b + i + 1)" \<sigma>]
    unfolding R by simp
  have w: "allocated \<sigma>1 (b, n)" using f Suc.prems by (rule allocated_frame)
  have el: "elems \<sigma>1 (b, n) = ?ls" using f Suc.prems by (rule elems_frame)
  have k: "k = n - 1 - Suc i" using Suc.hyps(2) by simp
  let ?c = "if inter then \<not> c else c"
  note IH = Suc.hyps(1) [OF k w, of ?c, unfolded el]
  have L: "segmentsLoop_s point b (i # [Suc i..<n - 1]) c \<sigma> =
      (if on then (True, \<sigma>1) else segmentsLoop_s point b [Suc i..<n - 1] ?c \<sigma>1)"
    unfolding segmentsLoop_s.simps R by simp
  have P: "segmentsLoop point (cells \<sigma> (b + i) # cells \<sigma> (b + i + 1) # drop (Suc (Suc i)) ?ls) c =
      (if on then True else segmentsLoop point (drop (Suc i) ?ls) ?c)"
    unfolding d1 segmentsLoop.simps r by simp
  show ?case
  proof (cases on)
    case True
    then show ?thesis unfolding e d L P using f by simp
  next
    case False
    then show ?thesis unfolding e d L P using IH f by (auto intro: frame_trans)
  qed
qed

lemma idx_elems:
  "0 < snd ls \<Longrightarrow> idx (elems \<sigma> ls) 0 = Inr (cells \<sigma> (fst ls))"
  "0 < snd ls \<Longrightarrow>
   idx (elems \<sigma> ls) (int (length (elems \<sigma> ls)) - 1) = Inr (cells \<sigma> (fst ls + (snd ls - 1)))"
  "snd ls = 0 \<Longrightarrow> idx (elems \<sigma> ls) 0 = Inl IndexOutOfRange"
proof -
  show "idx (elems \<sigma> ls) 0 = Inr (cells \<sigma> (fst ls))" if "0 < snd ls"
    using that nth_elems [of 0 ls \<sigma>] by (simp add: idx_def length_elems)
  show "idx (elems \<sigma> ls) (int (length (elems \<sigma> ls)) - 1) = Inr (cells \<sigma> (fst ls + (snd ls - 1)))"
    if "0 < snd ls"
  proof -
    have "nat (int (snd ls) - 1) = snd ls - 1" by simp
    moreover have "snd ls - 1 < snd ls" using that by simp
    ultimately show ?thesis
      using nth_elems [of "snd ls - 1" ls \<sigma>] that by (simp add: idx_def length_elems)
  qed
  show "idx (elems \<sigma> ls) 0 = Inl IndexOutOfRange" if "snd ls = 0"
    using that by (simp add: idx_def length_elems)
qed

lemma lineStringContains_s_spec:
  assumes "allocated \<sigma> ls"
  shows "fst (lineStringContains_s bc ls point \<sigma>) = lineStringContains bc (elems \<sigma> ls) point \<and>
         frame \<sigma> (snd (lineStringContains_s bc ls point \<sigma>))"
proof (cases "bc (elems \<sigma> ls) point")
  case False
  then show ?thesis by (simp add: lineStringContains_s_def lineStringContains_def frame_refl)
next
  case True
  show ?thesis
  proof (cases "snd ls = 0")
    case z: True
    with True idx_elems(3) [OF z] show ?thesis
      by (simp add: lineStringContains_s_def lineStringContains_def frame_refl)
  next
    case nz: False
    then have pos: "0 < snd ls" by simp
    obtain c on \<sigma>1 where
      R: "rayIntersect_s point (cells \<sigma> (fst ls)) (cells \<sigma> (fst ls + (snd ls - 1))) \<sigma> = ((c, on), \<sigma>1)"
      by (metis surj_pair)
    have f: "frame \<sigma> \<sigma>1"
      using rayIntersect_s_frame [of \<sigma> point "cells \<sigma> (fst ls)" "cells \<sigma> (fst ls + (snd ls - 1))"]
      unfolding R by simp
    have r: "rayIntersect point (cells \<sigma> (fst ls)) (cells \<sigma> (fst ls + (snd ls - 1))) = (c, on)"
      using rayIntersect_s_result [of point "cells \<sigma> (fst ls)" "cells \<sigma> (fst ls + (snd ls - 1))" \<sigma>]
      unfolding R by simp
    have w: "allocated \<sigma>1 (fst ls, snd ls)" using f assms by (simp add: allocated_frame)
    have el: "elems \<sigma>1 (fst ls, snd ls) = elems \<sigma> ls" using f assms by (simp add: elems_frame)
    note S = segmentsLoop_s_spec [OF w, of point 0 c, unfolded el drop_0]
    have L: "lineStringContains_s bc ls point \<sigma> =
        (if on then (Inr True, \<sigma>1)
         else (Inr (fst (segmentsLoop_s point (fst ls) [0..<snd ls - 1] c \<sigma>1)),
               snd (segmentsLoop_s point (fst ls) [0..<snd ls - 1] c \<sigma>1)))"
      unfolding lineStringContains_s_def R using True nz by (simp add: split_beta)
    have P: "lineStringContains bc (elems \<sigma> ls) point =
        (if on then Inr True else Inr (segmentsLoop point (elems \<sigma> ls) c))"
      unfolding lineStringContains_def idx_elems(1) [OF pos] idx_elems(2) [OF pos]
      using True r by simp
    show ?thesis
      unfolding L P using S f by (auto intro: frame_trans)
  qed
qed

lemma holesContain_s_spec:
  assumes "list_all (allocated \<sigma>) hs"
  shows "fst (holesContain_s bc hs point \<sigma>) = holesContain bc (map (elems \<sigma>) hs) point \<and>
         frame \<sigma> (snd (holesContain_s bc hs point \<sigma>))"
  using assms
proof (induction hs arbitrary: \<sigma>)
  case Nil
  then show ?case by (simp add: frame_refl)
next
  case (Cons h hs)
  obtain r \<sigma>1 where R: "lineStringContains_s bc h point \<sigma> = (r, \<sigma>1)" by (metis surj_pair)
  from Cons.prems have ah: "allocated \<sigma> h" and ahs: "list_all (allocated \<sigma>) hs" by simp_all
  from lineStringContains_s_spec [OF ah, of bc point]
  have r: "lineStringContains bc (elems \<sigma> h) point = r" and f: "frame \<sigma> \<sigma>1"
    unfolding R by simp_all
  have w: "list_all (allocated \<sigma>1) hs"
    using ahs f by (auto simp add: list_all_iff intro: allocated_frame)
  have el: "map (elems \<sigma>1) hs = map (elems \<sigma>) hs"
    using ahs f by (auto simp add: list_all_iff intro: elems_frame)
  note IH = Cons.IH [OF w, unfolded el]
  show ?case
    using IH f r
    by (auto simp add: R split: sum.splits intro: frame_trans)
qed

lemma Contains_s_spec:
  assumes "list_all (allocated \<sigma>) p"
  shows "fst (Contains_s bc p point \<sigma>) = Contains bc (map (elems \<sigma>) p) point \<and>
         frame \<sigma> (snd (Contains_s bc p point \<sigma>))"
proof (cases p)
  case Nil
  then show ?thesis by (simp add: Contains_s_def Contains_def idx_def frame_refl)
next
  case (Cons outer hs)
  obtain r \<sigma>1 where R: "lineStringContains_s bc outer point \<sigma> = (r, \<sigma>1)" by (metis surj_pair)
  from assms Cons have ah: "allocated \<sigma> outer" and ahs: "list_all (allocated \<sigma>) hs" by simp_all
  from lineStringContains_s_spec [OF ah, of bc point]
  have r: "lineStringContains bc (elems \<sigma> outer) point = r" and f: "frame \<sigma> \<sigma>1"
    unfolding R by simp_all
  have w: "list_all (allocated \<sigma>1) hs"
    using ahs f by (auto simp add: list_all_iff intro: allocated_frame)
  have el: "map (elems \<sigma>1) hs = map (elems \<sigma>) hs"
    using ahs f by (auto simp add: list_all_iff intro: elems_frame)
  note H = holesContain_s_spec [OF w, of bc point, unfolded el]
  show ?thesis
    using H f r
    by (auto simp add: Cons Contains_s_def Contains_Cons idx_def R split: sum.splits
        intro: frame_trans)
qed

lemma holesDistance_s_spec:
  assumes "list_all (allocated \<sigma>) hs"
  shows "fst (holesDistance_s bc rd hs point \<sigma>) = holesDistance bc rd (map (elems \<sigma>) hs) point \<and>
         frame \<sigma> (snd (holesDistance_s bc rd hs point \<sigma>))"
  using assms
proof (induction hs arbitrary: \<sigma>)
  case Nil
  then show ?case by (simp add: frame_refl)
next
  case (Cons h hs)
  obtain r \<sigma>1 where R: "Contains_s bc [h] point \<sigma> = (r, \<sigma>1)" by (metis surj_pair)
  from Cons.prems have ah: "allocated \<sigma> h" and ahs: "list_all (allocated \<sigma>) hs" by simp_all
  from ah have "list_all (allocated \<sigma>) [h]" by simp
  from Contains_s_spec [OF this, of bc point]
  have r: "Contains bc [elems \<sigma> h] point = r" and f: "frame \<sigma> \<sigma>1"
    unfolding R by simp_all
  have w: "list_all (allocated \<sigma>1) hs"
    using ahs f by (auto simp add: list_all_iff intro: allocated_frame)
  have el: "map (elems \<sigma>1) hs = map (elems \<sigma>) hs"
    using ahs f by (auto simp add: list_all_iff intro: elems_frame)
  have eh: "elems \<sigma>1 h = elems \<sigma> h" using f ah by (rule elems_frame)
  note IH = Cons.IH [OF w, unfolded el]
  show ?case
    using IH f r
    by (auto simp add: R eh split: sum.splits intro: frame_trans)
qed

lemma DistanceFrom_s_spec:
  assumes "list_all (allocated \<sigma>) p"
  shows "fst (DistanceFrom_s bc rd p point \<sigma>) = DistanceFrom bc rd (map (elems \<sigma>) p) point \<and>
         frame \<sigma> (snd (DistanceFrom_s bc rd p point \<sigma>))"
proof (cases p)
  case Nil
  then show ?thesis by (simp add: DistanceFrom_s_def DistanceFrom_def idx_def frame_refl)
next
  case (Cons outer hs)
  obtain r \<sigma>1 where R: "Contains_s bc [outer] point \<sigma> = (r, \<sigma>1)" by (metis surj_pair)
  from assms Cons have ah: "allocated \<sigma> outer" and ahs: "list_all (allocated \<sigma>) hs" by simp_all
  from ah have "list_all (allocated \<sigma>) [outer]" by simp
  from Contains_s_spec [OF this, of bc point]
  have r: "Contains bc [elems \<sigma> outer] point = r" and f: "frame \<sigma> \<sigma>1"
    unfolding R by simp_all
  have w: "list_all (allocated \<sigma>1) hs"
    using ahs f by (auto simp add: list_all_iff intro: allocated_frame)
  have el: "map (elems \<sigma>1) hs = map (elems \<sigma>) hs"
    using ahs f by (auto simp add: list_all_iff intro: elems_frame)
  have eh: "elems \<sigma>1 outer = elems \<sigma> outer" using f ah by (rule elems_frame)
  note H = holesDistance_s_spec [OF w, of bc rd point, unfolded el]
  show ?thesis
    using H f r
    by (auto simp add: Cons DistanceFrom_s_def DistanceFrom_def idx_def R eh split: sum.splits
        intro: frame_trans)
qed

lemma frame_cell: "frame \<sigma>0 \<sigma> \<Longrightarrow> a < limit \<sigma>0 \<Longrightarrow> cells \<sigma> a = cells \<sigma>0 a"
  by (simp add: frame_def)

lemma frame_elem:
  assumes "frame \<sigma>0 \<sigma>" and "allocated \<sigma>0 (b, n)" and "j < n"
  shows "cells \<sigma> (b + j) = elems \<sigma>0 (b, n) ! j"
proof -
  have "b + j < limit \<sigma>0" using assms(2,3) by (simp add: allocated_def)
  with assms(1) have "cells \<sigma> (b + j) = cells \<sigma>0 (b + j)" by (rule frame_cell)
  then show ?thesis using assms(3) by (simp add: nth_elems)
qed

lemma centroidLoop_short: "length xs \<le> 1 \<Longrightarrow> centroidLoop ox oy xs acc = acc"
  by (cases xs; cases "tl xs") auto

lemma centroidLoop_s_spec:
  assumes "allocated \<sigma>0 (b, n)" and "frame \<sigma>0 \<sigma>" and "limit \<sigma>0 \<le> c"
  shows "(fst (centroidLoop_s ox oy b [i..<n - 1] c area \<sigma>),
          cells (snd (centroidLoop_s ox oy b [i..<n - 1] c area \<sigma>)) c) =
           centroidLoop ox oy (drop i (elems \<sigma>0 (b, n))) (area, cells \<sigma> c) \<and>
         frame \<sigma>0 (snd (centroidLoop_s ox oy b [i..<n - 1] c area \<sigma>))"
  using assms(2)
proof (induction "n - 1 - i" arbitrary: i area \<sigma>)
  case 0
  then have e: "[i..<n - 1] = []" by simp
  from 0 have "length (drop i (elems \<sigma>0 (b, n))) \<le> 1" by (simp add: length_elems)
  then have "centroidLoop ox oy (drop i (elems \<sigma>0 (b, n))) (area, cells \<sigma> c) = (area, cells \<sigma> c)"
    by (rule centroidLoop_short)
  then show ?case unfolding e using 0 by simp
next
  case (Suc k)
  then have i: "i < n - 1" "Suc i < n" "i < n" by simp_all
  then have e: "[i..<n - 1] = i # [Suc i..<n - 1]" by (simp add: upt_conv_Cons)
  let ?ls = "elems \<sigma>0 (b, n)"
  let ?p = "?ls ! i" and ?q = "?ls ! Suc i"
  have d: "drop i ?ls = ?p # ?q # drop (Suc (Suc i)) ?ls"
    using i Cons_nth_drop_Suc [of i ?ls] Cons_nth_drop_Suc [of "Suc i" ?ls]
    by (simp add: length_elems)
  have d1: "drop (Suc i) ?ls = ?q # drop (Suc (Suc i)) ?ls"
    using i Cons_nth_drop_Suc [of "Suc i" ?ls] by (simp add: length_elems)
  have rd: "cells \<sigma>' (b + i) = ?p" "cells \<sigma>' (b + i + 1) = ?q" if "frame \<sigma>0 \<sigma>'" for \<sigma>'
    using frame_elem [OF that assms(1) i(3)] frame_elem [OF that assms(1) i(2)] by simp_all
  define a where "a = fsub (fmul (fsub (fst ?p) ox) (fsub (snd ?q) oy))
                            (fmul (fsub (fst ?q) ox) (fsub (snd ?p) oy))"
  define \<sigma>1 where "\<sigma>1 = assign c
      (fadd (fst (cells \<sigma> c)) (fmul (fsub (fadd (fst ?p) (fst ?q)) (fmul (Fin 2) ox)) a),
       snd (cells \<sigma> c)) \<sigma>"
  define \<sigma>2 where "\<sigma>2 = assign c
      (fst (cells \<sigma>1 c),
       fadd (snd (cells \<sigma>1 c)) (fmul (fsub (fadd (snd ?p) (snd ?q)) (fmul (Fin 2) oy)) a)) \<sigma>1"
  have f1: "frame \<sigma>0 \<sigma>1" unfolding \<sigma>1_def using Suc.prems assms(3) by (rule frame_assign)
  have f2: "frame \<sigma>0 \<sigma>2" unfolding \<sigma>2_def using f1 assms(3) by (rule frame_assign)
  have L: "centroidLoop_s ox oy b (i # [Suc i..<n - 1]) c area \<sigma> =
           centroidLoop_s ox oy b [Suc i..<n - 1] c (fadd area a) \<sigma>2"
    apply (simp only: centroidLoop_s.simps Let_def rd [OF Suc.prems])
    apply (simp only: a_def [symmetric])
    apply (simp only: \<sigma>1_def [symmetric])
    apply (simp only: rd [OF f1])
    apply (simp only: \<sigma>2_def [symmetric])
    done
  have c2: "cells \<sigma>2 c =
      (fadd (fst (cells \<sigma> c)) (fmul (fsub (fadd (fst ?p) (fst ?q)) (fmul (Fin 2) ox)) a),
       fadd (snd (cells \<sigma> c)) (fmul (fsub (fadd (snd ?p) (snd ?q)) (fmul (Fin 2) oy)) a))"
    by (simp add: \<sigma>2_def \<sigma>1_def cells_assign)
  have P: "centroidLoop ox oy (?p # ?q # drop (Suc (Suc i)) ?ls) (area, cells \<sigma> c) =
           centroidLoop ox oy (drop (Suc i) ?ls) (fadd area a, cells \<sigma>2 c)"
    unfolding d1 c2 by (cases "cells \<sigma> c") (simp add: Let_def a_def)
  have k: "k = n - 1 - Suc i" using Suc.hyps(2) by simp
  note IH = Suc.hyps(1) [OF k f2, of "fadd area a"]
  show ?case unfolding e d L P by (rule IH)
qed

lemma ringCentroid_s_spec:
  assumes "allocated \<sigma> ring"
  shows "fst (ringCentroid_s ring \<sigma>) = ringCentroid (elems \<sigma> ring) \<and>
         frame \<sigma> (snd (ringCentroid_s ring \<sigma>))"
proof -
  obtain b n where ring: "ring = (b, n)" by (cases ring)
  define c where "c = limit \<sigma>"
  define \<sigma>1 where "\<sigma>1 = snd (alloc (Fin 0, Fin 0) \<sigma>)"
  have al: "alloc (Fin 0, Fin 0) \<sigma> = (c, \<sigma>1)" by (simp add: alloc_def c_def \<sigma>1_def)
  have f1: "frame \<sigma> \<sigma>1" unfolding \<sigma>1_def by (rule frame_alloc)
  have c1: "cells \<sigma>1 c = (Fin 0, Fin 0)" by (simp add: \<sigma>1_def alloc_def c_def)
  have cl: "limit \<sigma> \<le> c" by (simp add: c_def)
  show ?thesis
  proof (cases "n = 0")
    case True
    then show ?thesis
      using f1 by (simp add: ringCentroid_s_def al ring ringCentroid_def idx_def length_elems)
  next
    case False
    then have pos: "0 < n" by simp
    let ?ls = "elems \<sigma> (b, n)"
    have a: "allocated \<sigma> (b, n)" using assms ring by simp
    have p0: "cells \<sigma>1 b = ?ls ! 0" using frame_elem [OF f1 a pos] by simp
    have i0: "idx ?ls 0 = Inr (?ls ! 0)" using pos by (simp add: idx_def length_elems)
    define ox where "ox = fst (?ls ! 0)"
    define oy where "oy = snd (?ls ! 0)"
    obtain area \<sigma>2 where R: "centroidLoop_s ox oy b [1..<n - 1] c (Fin 0) \<sigma>1 = (area, \<sigma>2)"
      by (metis surj_pair)
    obtain cx cy where C: "cells \<sigma>2 c = (cx, cy)" by (metis surj_pair)
    from centroidLoop_s_spec [OF a f1 cl, of ox oy 1 "Fin 0"]
    have P: "centroidLoop ox oy (tl ?ls) (Fin 0, (Fin 0, Fin 0)) = (area, (cx, cy))"
      and f2: "frame \<sigma> \<sigma>2"
      unfolding R by (simp_all add: C c1 drop_Suc)
    define area2 where "area2 = fdiv area (Fin 2)"
    define \<sigma>3 where "\<sigma>3 = assign c (fdiv (fst (cells \<sigma>2 c)) (fmul (Fin 6) area2), snd (cells \<sigma>2 c)) \<sigma>2"
    define \<sigma>4 where "\<sigma>4 = assign c (fst (cells \<sigma>3 c), fdiv (snd (cells \<sigma>3 c)) (fmul (Fin 6) area2)) \<sigma>3"
    define \<sigma>5 where "\<sigma>5 = assign c (fadd (fst (cells \<sigma>4 c)) ox, snd (cells \<sigma>4 c)) \<sigma>4"
    define \<sigma>6 where "\<sigma>6 = assign c (fst (cells \<sigma>5 c), fadd (snd (cells \<sigma>5 c)) oy) \<sigma>5"
    have f6: "frame \<sigma> \<sigma>6"
      unfolding \<sigma>6_def \<sigma>5_def \<sigma>4_def \<sigma>3_def using f2 cl by (intro frame_assign)
    have c6: "cells \<sigma>6 c = (fadd (fdiv cx (fmul (Fin 6) area2)) ox,
                             fadd (fdiv cy (fmul (Fin 6) area2)) oy)"
      by (simp add: \<sigma>6_def \<sigma>5_def \<sigma>4_def \<sigma>3_def cells_assign C)
    have L: "ringCentroid_s (b, n) \<sigma> = (Inr (cells \<sigma>6 c, area2), \<sigma>6)"
      unfolding ringCentroid_s_def al
      apply (simp only: prod.case Let_def fst_conv snd_conv p0 ox_def [symmetric] oy_def [symmetric])
      apply (simp only: R prod.case area2_def [symmetric])
      apply (simp only: \<sigma>3_def [symmetric])
      apply (simp only: \<sigma>4_def [symmetric])
      apply (simp only: \<sigma>5_def [symmetric])
      apply (simp only: \<sigma>6_def [symmetric])
      using False apply simp
      done
    have Q: "ringCentroid ?ls = Inr (cells \<sigma>6 c, area2)"
      unfolding ringCentroid_def i0 c6
      by (simp add: Let_def ox_def [symmetric] oy_def [symmetric] P area2_def)
    show ?thesis unfolding ring L Q using f6 by simp
  qed
qed

lemma frame_limit: "frame \<sigma> \<sigma>' \<Longrightarrow> limit \<sigma> \<le> limit \<sigma>'"
  by (simp add: frame_def)

lemma holesCentroid_s_spec:
  assumes "list_all (allocated \<sigma>0) rings" and "frame \<sigma>0 \<sigma>"
    and "limit \<sigma>0 \<le> hc" and "hc < limit \<sigma>"
  shows "(case fst (holesCentroid_s rings hc ha \<sigma>) of
            Inl err \<Rightarrow> holesCentroid (map (elems \<sigma>0) rings) (ha, cells \<sigma> hc) = Inl err
          | Inr ha' \<Rightarrow> holesCentroid (map (elems \<sigma>0) rings) (ha, cells \<sigma> hc) =
                        Inr (ha', cells (snd (holesCentroid_s rings hc ha \<sigma>)) hc)) \<and>
         frame \<sigma>0 (snd (holesCentroid_s rings hc ha \<sigma>)) \<and>
         (\<forall>a. a < limit \<sigma> \<and> a \<noteq> hc \<longrightarrow> cells (snd (holesCentroid_s rings hc ha \<sigma>)) a = cells \<sigma> a)"
  using assms(1,2,4)
proof (induction rings arbitrary: ha \<sigma>)
  case Nil
  then show ?case by (cases "cells \<sigma> hc") simp
next
  case (Cons ring rings)
  obtain r \<sigma>1 where R: "ringCentroid_s ring \<sigma> = (r, \<sigma>1)" by (metis surj_pair)
  from Cons.prems(1) have a0: "allocated \<sigma>0 ring" and as0: "list_all (allocated \<sigma>0) rings"
    by simp_all
  have a: "allocated \<sigma> ring" using Cons.prems(2) a0 by (rule allocated_frame)
  have el: "elems \<sigma> ring = elems \<sigma>0 ring" using Cons.prems(2) a0 by (rule elems_frame)
  from ringCentroid_s_spec [OF a]
  have r: "ringCentroid (elems \<sigma>0 ring) = r" and f1: "frame \<sigma> \<sigma>1"
    unfolding R el by simp_all
  have f01: "frame \<sigma>0 \<sigma>1" using Cons.prems(2) f1 by (rule frame_trans)
  have h1: "cells \<sigma>1 hc = cells \<sigma> hc" using f1 Cons.prems(3) by (rule frame_cell)
  obtain hx hy where H: "cells \<sigma> hc = (hx, hy)" by (metis surj_pair)
  show ?case
  proof (cases r)
    case (Inl err)
    with r f01 f1 show ?thesis by (simp add: R H frame_def)
  next
    case (Inr v)
    then obtain c a where v: "r = Inr (c, a)" by (cases v) auto
    define \<sigma>2 where "\<sigma>2 = assign hc (fadd (fst (cells \<sigma>1 hc)) (fmul (fst c) a), snd (cells \<sigma>1 hc)) \<sigma>1"
    define \<sigma>3 where "\<sigma>3 = assign hc (fst (cells \<sigma>2 hc), fadd (snd (cells \<sigma>2 hc)) (fmul (snd c) a)) \<sigma>2"
    have f3: "frame \<sigma>0 \<sigma>3"
      unfolding \<sigma>3_def \<sigma>2_def using f01 assms(3) by (intro frame_assign)
    have l3: "hc < limit \<sigma>3"
      using Cons.prems(3) frame_limit [OF f1] by (simp add: \<sigma>3_def \<sigma>2_def limit_assign)
    have c3: "cells \<sigma>3 hc = (fadd hx (fmul (fst c) a), fadd hy (fmul (snd c) a))"
      by (simp add: \<sigma>3_def \<sigma>2_def cells_assign h1 H)
    have o3: "cells \<sigma>3 x = cells \<sigma> x" if "x < limit \<sigma>" "x \<noteq> hc" for x
      using that frame_cell [OF f1 that(1)] by (simp add: \<sigma>3_def \<sigma>2_def cells_assign)
    have l13: "limit \<sigma> \<le> limit \<sigma>3"
      using frame_limit [OF f1] by (simp add: \<sigma>3_def \<sigma>2_def limit_assign)
    have L: "holesCentroid_s (ring # rings) hc ha \<sigma> = holesCentroid_s rings hc (fadd ha a) \<sigma>3"
      apply (simp only: holesCentroid_s.simps R v prod.case sum.case Let_def)
      apply (simp only: \<sigma>2_def [symmetric])
      apply (simp only: \<sigma>3_def [symmetric])
      done
    have P: "holesCentroid (map (elems \<sigma>0) (ring # rings)) (ha, cells \<sigma> hc) =
             holesCentroid (map (elems \<sigma>0) rings) (fadd ha a, cells \<sigma>3 hc)"
      by (simp add: H r v c3)
    note IH = Cons.IH [OF as0 f3 l3, of "fadd ha a"]
    show ?thesis
      unfolding L P using IH o3 l13 by auto
  qed
qed

lemma CentroidArea_Cons:
  "CentroidArea (outer # hs) =
     (case ringCentroid outer of
        Inl err \<Rightarrow> Inl err
      | Inr (centroid, area) \<Rightarrow>
          (case holesCentroid hs (Fin 0, (Fin 0, Fin 0)) of
             Inl err \<Rightarrow> Inl err
           | Inr (holeArea, holeCentroid) \<Rightarrow>
               Inr ((fdiv (fsub (fmul area (fst centroid)) (fmul holeArea (fst holeCentroid)))
                          (fsub area holeArea),
                     fdiv (fsub (fmul area (snd centroid)) (fmul holeArea (snd holeCentroid)))
                          (fsub area holeArea)),
                    fsub area holeArea)))"
  by (simp add: CentroidArea_def idx_def split: sum.splits prod.splits)

lemma CentroidArea_s_spec:
  assumes "list_all (allocated \<sigma>) p"
  shows "fst (CentroidArea_s p \<sigma>) = CentroidArea (map (elems \<sigma>) p) \<and>
         frame \<sigma> (snd (CentroidArea_s p \<sigma>))"
proof (cases p)
  case Nil
  then show ?thesis by (simp add: CentroidArea_s_def CentroidArea_def idx_def frame_refl)
next
  case (Cons outer hs)
  from assms Cons have ao: "allocated \<sigma> outer" and ahs: "list_all (allocated \<sigma>) hs" by simp_all
  obtain r \<sigma>1 where R: "ringCentroid_s outer \<sigma> = (r, \<sigma>1)" by (metis surj_pair)
  from ringCentroid_s_spec [OF ao]
  have r: "ringCentroid (elems \<sigma> outer) = r" and f1: "frame \<sigma> \<sigma>1"
    unfolding R by simp_all
  have i0: "idx (outer # hs) 0 = Inr outer" "idx (map (elems \<sigma>) (outer # hs)) 0 = Inr (elems \<sigma> outer)"
    by (simp_all add: idx_def)
  show ?thesis
  proof (cases r)
    case (Inl err)
    with r f1 show ?thesis
      by (simp add: Cons CentroidArea_s_def CentroidArea_Cons i0 R)
  next
    case (Inr v)
    then obtain cv area where v: "r = Inr (cv, area)" by (cases v) auto
    define c where "c = limit \<sigma>1"
    define hc where "hc = Suc (limit \<sigma>1)"
    define \<sigma>2 where "\<sigma>2 = snd (alloc cv \<sigma>1)"
    define \<sigma>3 where "\<sigma>3 = snd (alloc (Fin 0, Fin 0) \<sigma>2)"
    have al: "alloc cv \<sigma>1 = (c, \<sigma>2)" "alloc (Fin 0, Fin 0) \<sigma>2 = (hc, \<sigma>3)"
      by (simp_all add: alloc_def c_def hc_def \<sigma>2_def \<sigma>3_def)
    have f3: "frame \<sigma> \<sigma>3"
      unfolding \<sigma>3_def \<sigma>2_def using f1 by (blast intro: frame_trans frame_alloc)
    have l: "limit \<sigma> \<le> c" "limit \<sigma> \<le> hc" "hc < limit \<sigma>3" "c < limit \<sigma>3" "c \<noteq> hc"
      using frame_limit [OF f1] by (simp_all add: c_def hc_def \<sigma>3_def \<sigma>2_def alloc_def)
    have c3: "cells \<sigma>3 c = cv" "cells \<sigma>3 hc = (Fin 0, Fin 0)"
      by (simp_all add: c_def hc_def \<sigma>3_def \<sigma>2_def alloc_def)
    obtain r2 \<sigma>4 where R2: "holesCentroid_s hs hc (Fin 0) \<sigma>3 = (r2, \<sigma>4)" by (metis surj_pair)
    from holesCentroid_s_spec [OF ahs f3 l(2) l(3), of "Fin 0"]
    have h: "case r2 of
               Inl err \<Rightarrow> holesCentroid (map (elems \<sigma>) hs) (Fin 0, (Fin 0, Fin 0)) = Inl err
             | Inr ha' \<Rightarrow> holesCentroid (map (elems \<sigma>) hs) (Fin 0, (Fin 0, Fin 0)) =
                           Inr (ha', cells \<sigma>4 hc)"
      and f4: "frame \<sigma> \<sigma>4"
      and o4: "\<forall>a. a < limit \<sigma>3 \<and> a \<noteq> hc \<longrightarrow> cells \<sigma>4 a = cells \<sigma>3 a"
      unfolding R2 c3 fst_conv snd_conv by blast+
    have c4: "cells \<sigma>4 c = cv" using o4 l(4,5) c3(1) by simp
    show ?thesis
    proof (cases r2)
      case (Inl err)
      with h f4 show ?thesis
        by (simp add: Cons CentroidArea_s_def CentroidArea_Cons i0 R r v al R2)
    next
      case (Inr holeArea)
      with h have hp: "holesCentroid (map (elems \<sigma>) hs) (Fin 0, (Fin 0, Fin 0)) =
          Inr (holeArea, cells \<sigma>4 hc)" by simp
      define \<sigma>5 where "\<sigma>5 = assign c
          (fdiv (fsub (fmul area (fst (cells \<sigma>4 c))) (fmul holeArea (fst (cells \<sigma>4 hc))))
                (fsub area holeArea), snd (cells \<sigma>4 c)) \<sigma>4"
      define \<sigma>6 where "\<sigma>6 = assign c
          (fst (cells \<sigma>5 c),
           fdiv (fsub (fmul area (snd (cells \<sigma>5 c))) (fmul holeArea (snd (cells \<sigma>5 hc))))
                (fsub area holeArea)) \<sigma>5"
      have f6: "frame \<sigma> \<sigma>6"
        unfolding \<sigma>6_def \<sigma>5_def using f4 l(1) by (intro frame_assign)
      have c6: "cells \<sigma>6 c =
          (fdiv (fsub (fmul area (fst cv)) (fmul holeArea (fst (cells \<sigma>4 hc)))) (fsub area holeArea),
           fdiv (fsub (fmul area (snd cv)) (fmul holeArea (snd (cells \<sigma>4 hc)))) (fsub area holeArea))"
        using l(5) by (simp add: \<sigma>6_def \<sigma>5_def cells_assign c4)
      have L: "CentroidArea_s (outer # hs) \<sigma> = (Inr (cells \<sigma>6 c, fsub area holeArea), \<sigma>6)"
        apply (simp only: CentroidArea_s_def i0 sum.case R prod.case v al Let_def list.sel R2 Inr)
        apply (simp only: \<sigma>5_def [symmetric])
        apply (simp only: \<sigma>6_def [symmetric])
        done
      have Q: "CentroidArea (map (elems \<sigma>) (outer # hs)) = Inr (cells \<sigma>6 c, fsub area holeArea)"
        unfolding c6 by (simp add: CentroidArea_Cons r v hp)
      show ?thesis unfolding Cons L Q using f6 by simp
    qed
  qed
qed

lemma frame_preserved:
  assumes "frame \<sigma> \<sigma>'" and "list_all (allocated \<sigma>) p" and "q < limit \<sigma>"
  shows "preserved \<sigma> p q \<sigma>'"
proof -
  have "map (elems \<sigma>') p = map (elems \<sigma>) p"
    using assms(1,2) by (auto simp add: list_all_iff intro: elems_frame)
  moreover have "cells \<sigma>' q = cells \<sigma> q" using assms(1,3) by (rule frame_cell)
  ultimately show ?thesis by (simp add: preserved_def)
qed

section \<open>The claims\<close>

text \<open>
  C1. For a polygon with at least one hole, \<^verbatim>\<open>CentroidArea\<close> is claimed to combine the
  rings as (outerArea * outerCentroid - sum of holeArea_i * holeCentroid_i) /
  (outerArea - sum of holeArea_i) on each axis. The code multiplies the sum of the
  weighted hole centroids by \<^verbatim>\<open>holeArea\<close> once more. For the square of side 4 with the
  square hole of side 2 in its middle, both rings have the centroid (2, 2) and the areas
  are 16 and 4: the stated formula gives (16 * 2 - 4 * 2) / (16 - 4) = 2 on each
  axis, and the code returns the centroid (0, 0).
\<close>

theorem CentroidArea_hole_weighted_twice:
  "ringCentroid outer4 = Inr ((Fin 2, Fin 2), Fin 16) \<and>
   ringCentroid hole2 = Inr ((Fin 2, Fin 2), Fin 4) \<and>
   fdiv (fsub (fmul (Fin 16) (Fin 2)) (fmul (Fin 4) (Fin 2))) (fsub (Fin 16) (Fin 4)) = Fin 2 \<and>
   CentroidArea [outer4, hole2] = Inr ((Fin 0, Fin 0), Fin 12)"
  by (simp add: CentroidArea_def ringCentroid_outer4 ringCentroid_hole2 feval
      cong: let_weak_cong)

text \<open>
  C2. For the polygon with no ring, \<^verbatim>\<open>WKT\<close> returns "EMPTY"; \<^verbatim>\<open>Area\<close> and
  \<^verbatim>\<open>Contains\<close> are claimed to return 0 and false, and both panic on \<^verbatim>\<open>p[0]\<close>.
\<close>

theorem empty_polygon_WKT_Area_Contains:
  "WKT wktPoints [] = Inr ''EMPTY'' \<and>
   Area [] = Inl IndexOutOfRange \<and>
   Contains bc [] point = Inl IndexOutOfRange"
  by (simp add: WKT_def Area_def Contains_def idx_def)

text \<open>
  C3. \<^verbatim>\<open>DistanceFrom\<close> is claimed to return 0 exactly when \<^verbatim>\<open>Contains\<close> returns true. For
  a point on the boundary of a hole the ring predicate of the hole is true, so
  \<^verbatim>\<open>Contains\<close> returns false, and \<^verbatim>\<open>DistanceFrom\<close> returns the distance from the hole,
  which is 0: here the vertex (1, 1) of the hole of side 2 in the square of side 4.
\<close>

theorem DistanceFrom_zero_on_hole_boundary_counterexample:
  "\<not> (\<forall>p point. p \<noteq> [] \<longrightarrow>
        ((\<exists>d. DistanceFrom boundContains ringDistance p point = Inr d \<and> feq d (Fin 0)) =
         (Contains boundContains p point = Inr True)))"
proof
  assume a: "\<forall>p point. p \<noteq> [] \<longrightarrow>
        ((\<exists>d. DistanceFrom boundContains ringDistance p point = Inr d \<and> feq d (Fin 0)) =
         (Contains boundContains p point = Inr True))"
  have c: "Contains boundContains [outer4, hole2] (ipt 1 1) = Inr False"
    by (simp add: Contains_Cons outer4_11 hole2_11)
  have "DistanceFrom boundContains ringDistance [outer4, hole2] (ipt 1 1) = Inr (Fin 0)"
    by (simp add: DistanceFrom_Cons Contains_single outer4_11 hole2_11 ringDistance_hole2_11)
  moreover have "feq (Fin 0) (Fin 0)" by (simp add: feq_def)
  ultimately have "Contains boundContains [outer4, hole2] (ipt 1 1) = Inr True"
    using a [rule_format, of "[outer4, hole2]" "ipt 1 1"] by blast
  with c show False by simp
qed

text \<open>
  C3, amended. When \<^verbatim>\<open>Contains\<close> returns true, \<^verbatim>\<open>DistanceFrom\<close> returns 0. When the
  point is at distance 0 from no ring of the polygon (\<^verbatim>\<open>LineString.DistanceFrom\<close> is
  not 0 for any ring), \<^verbatim>\<open>DistanceFrom\<close> returns 0 exactly when \<^verbatim>\<open>Contains\<close> returns
  true.
\<close>

theorem DistanceFrom_zero_iff_Contains:
  "(Contains bc p point = Inr True \<longrightarrow> DistanceFrom bc rd p point = Inr (Fin 0)) \<and>
   ((\<forall>r\<in>set p. \<not> feq (rd r point) (Fin 0)) \<longrightarrow>
    ((\<exists>d. DistanceFrom bc rd p point = Inr d \<and> feq d (Fin 0)) =
     (Contains bc p point = Inr True)))"
proof (cases p)
  case Nil
  then show ?thesis by (simp add: Contains_def DistanceFrom_def idx_def)
next
  case (Cons outer holes)
  have one: "DistanceFrom bc rd p point = Inr (Fin 0)" if "Contains bc p point = Inr True"
    using that unfolding Cons
    by (auto simp add: Contains_Cons DistanceFrom_Cons holesDistance_none
        split: sum.splits if_splits)
  have two: "Contains bc p point = Inr True"
    if nz: "\<forall>r\<in>set p. \<not> feq (rd r point) (Fin 0)"
      and d: "DistanceFrom bc rd p point = Inr d" "feq d (Fin 0)" for d
  proof (cases "lineStringContains bc outer point")
    case (Inl err)
    with d show ?thesis by (simp add: Cons DistanceFrom_Cons)
  next
    case (Inr c)
    show ?thesis
    proof (cases c)
      case False
      with Inr d nz show ?thesis by (auto simp add: Cons DistanceFrom_Cons)
    next
      case True
      with Inr d have "holesDistance bc rd holes point = Inr d"
        by (simp add: Cons DistanceFrom_Cons)
      from holesDistance_cases [OF this] nz d(2)
      have "holesContain bc holes point = Inr True" by (auto simp add: Cons)
      with Inr True show ?thesis by (simp add: Cons Contains_Cons)
    qed
  qed
  have "feq (Fin 0) (Fin 0)" by (simp add: feq_def)
  with one two show ?thesis by blast
qed

theorem DistanceFrom_zero_iff_Contains_witness:
  "Contains boundContains [outer4, [ipt 2 2, ipt 3 2, ipt 3 3, ipt 2 3, ipt 2 2]] (ipt 1 2) = Inr True \<and>
   \<not> feq (ringDistance outer4 (ipt 1 2)) (Fin 0) \<and>
   \<not> feq (ringDistance [ipt 2 2, ipt 3 2, ipt 3 3, ipt 2 3, ipt 2 2] (ipt 1 2)) (Fin 0) \<and>
   DistanceFrom boundContains ringDistance
     [outer4, [ipt 2 2, ipt 3 2, ipt 3 3, ipt 2 3, ipt 2 2]] (ipt 1 2) = Inr (Fin 0)"
proof -
  let ?h = "[ipt 2 2, ipt 3 2, ipt 3 3, ipt 2 3, ipt 2 2]"
  have o: "lineStringContains boundContains outer4 (ipt 1 2) = Inr True"
    by (simp add: outer4_def ceval cong: let_weak_cong)
  have h: "lineStringContains boundContains ?h (ipt 1 2) = Inr False"
    by (simp add: ceval cong: let_weak_cong)
  have c: "Contains boundContains [outer4, ?h] (ipt 1 2) = Inr True"
    by (simp add: Contains_Cons o h)
  have nz: "\<not> feq (ringDistance outer4 (ipt 1 2)) (Fin 0)"
    "\<not> feq (ringDistance ?h (ipt 1 2)) (Fin 0)"
    by (simp_all add: ringDistance_outer4_12 ringDistance_hole23_12 feq_def)
  from DistanceFrom_zero_iff_Contains [of boundContains "[outer4, ?h]" "ipt 1 2" ringDistance] c nz
  show ?thesis by simp
qed




text \<open>
  C5. Let a ring have a vertical segment \<open>a\<close>, \<open>b\<close> (the same x coordinate at both ends)
  and let the query point have that x coordinate and a y coordinate between those of
  \<open>a\<close> and \<open>b\<close>, inclusive. Then \<^verbatim>\<open>rayIntersect\<close> reports the point as on the segment,
  and the ring predicate returns true: for every bounding rectangle test \<open>bc\<close> that the
  point passes, and for the bounding rectangle of the spec.
\<close>

theorem vertical_edge_on_boundary:
  assumes "(a, b) \<in> set (ringSegments ls)"
    and "feq (fst a) (fst b)" and "feq (fst point) (fst a)"
    and "(fle (snd a) (snd point) \<and> fle (snd point) (snd b)) \<or>
         (fle (snd b) (snd point) \<and> fle (snd point) (snd a))"
  shows "rayIntersect point a b = (False, True) \<and>
         (bc ls point \<longrightarrow> lineStringContains bc ls point = Inr True) \<and>
         lineStringContains boundContains ls point = Inr True"
proof -
  have on: "rayIntersect point a b = (False, True)"
    using assms(2-4) by (rule rayIntersect_vertical)
  then have s: "snd (rayIntersect point a b)" by simp
  have "boundContains ls point" using assms by (rule boundContains_vertical)
  then have "lineStringContains boundContains ls point = Inr True"
    using assms(1) s by (rule lineStringContains_on)
  moreover have "lineStringContains bc ls point = Inr True" if "bc ls point"
    using that assms(1) s by (rule lineStringContains_on)
  ultimately show ?thesis using on by blast
qed

theorem vertical_edge_on_boundary_witness:
  "(ipt 4 0, ipt 4 4) \<in> set (ringSegments outer4) \<and>
   feq (fst (ipt 4 0)) (fst (ipt 4 4)) \<and> feq (fst (ipt 4 2)) (fst (ipt 4 0)) \<and>
   fle (snd (ipt 4 0)) (snd (ipt 4 2)) \<and> fle (snd (ipt 4 2)) (snd (ipt 4 4)) \<and>
   rayIntersect (ipt 4 2) (ipt 4 0) (ipt 4 4) = (False, True) \<and>
   lineStringContains boundContains outer4 (ipt 4 2) = Inr True"
proof -
  have s: "(ipt 4 0, ipt 4 4) \<in> set (ringSegments outer4)"
    by (simp add: ringSegments_def outer4_def)
  have v: "feq (fst (ipt 4 0)) (fst (ipt 4 4))" "feq (fst (ipt 4 2)) (fst (ipt 4 0))"
    by (simp_all add: ipt_def feq_def)
  have y: "fle (snd (ipt 4 0)) (snd (ipt 4 2))" "fle (snd (ipt 4 2)) (snd (ipt 4 4))"
    by (simp_all add: ipt_def fcompare)
  from y have y': "(fle (snd (ipt 4 0)) (snd (ipt 4 2)) \<and> fle (snd (ipt 4 2)) (snd (ipt 4 4))) \<or>
     (fle (snd (ipt 4 4)) (snd (ipt 4 2)) \<and> fle (snd (ipt 4 2)) (snd (ipt 4 0)))" by simp
  from vertical_edge_on_boundary [OF s v y', of boundContains] s v y show ?thesis by simp
qed

text \<open>
  C6. \<^verbatim>\<open>Area\<close> is claimed to be at least 0 for every polygon, also when the holes are
  not inside the outer ring. It is the area of the outer ring minus the areas of the
  holes: for the square of side 2 as the outer ring and the square of side 4 as its
  hole, it is 4 - 16 = -12.
\<close>

theorem Area_negative_counterexample:
  "\<not> (\<forall>p a. Area p = Inr a \<longrightarrow> fge a (Fin 0))"
proof
  assume "\<forall>p a. Area p = Inr a \<longrightarrow> fge a (Fin 0)"
  moreover have "Area [hole2, outer4] = Inr (Fin (- 12))"
    by (simp add: Area_def lineStringArea_outer4 lineStringArea_hole2 feval)
  ultimately have "fge (Fin (- 12)) (Fin 0)" by blast
  then show False by (simp add: fcompare)
qed

text \<open>
  C6, amended. Let \<^verbatim>\<open>Area\<close> return \<open>a\<close> for the polygon with the outer ring \<open>outer\<close> and
  the holes \<open>holes\<close>. Without holes \<open>a\<close> is never negative: it is at least 0, or it is NaN.
  With holes, when \<open>a\<close> is not NaN, \<open>a\<close> is at least 0 exactly when the area of every hole
  is at most what is left of the area of the outer ring after the holes before it, and
  \<open>a\<close> is negative otherwise.
\<close>

theorem Area_sign_by_holes:
  assumes "Area (outer # holes) = Inr a"
  shows "\<exists>b. lineStringArea outer = Inr b \<and>
           (a = NaN \<or> (fge a (Fin 0) = holesFit holes b \<and> flt a (Fin 0) = (\<not> holesFit holes b))) \<and>
           (holes = [] \<longrightarrow> a = NaN \<or> fge a (Fin 0))"
proof -
  from assms obtain b where b: "lineStringArea outer = Inr b" and h: "holesArea holes b = Inr a"
    by (auto simp add: Area_Cons split: sum.splits)
  have g: "\<exists>n::int. fval b = of_int n * 2 powi (- 1074)" using b by (rule lineStringArea_grid)
  have s: "fge a (Fin 0) = holesFit holes b \<and> flt a (Fin 0) = (\<not> holesFit holes b)" if "a \<noteq> NaN"
  proof -
    from that h have "b \<noteq> NaN" using holesArea_NaN by auto
    with lineStringArea_nonneg [OF b] have "fge b (Fin 0)" by simp
    with h that show ?thesis using g by (rule holesArea_sign)
  qed
  then have "holes = [] \<longrightarrow> a = NaN \<or> fge a (Fin 0)" by (cases "a = NaN") auto
  with b s show ?thesis by blast
qed

theorem Area_sign_by_holes_witness:
  "Area [outer4, hole2] = Inr (Fin 12) \<and> holesFit [hole2] (Fin 16) \<and> fge (Fin 12) (Fin 0) \<and>
   Area [hole2, outer4] = Inr (Fin (- 12)) \<and> \<not> holesFit [outer4] (Fin 4) \<and> flt (Fin (- 12)) (Fin 0) \<and>
   Area [outer4] = Inr (Fin 16) \<and> fge (Fin 16) (Fin 0)"
proof -
  have a: "Area [outer4, hole2] = Inr (Fin 12)"
    by (simp add: Area_def lineStringArea_outer4 lineStringArea_hole2 feval)
  have b: "Area [hole2, outer4] = Inr (Fin (- 12))"
    by (simp add: Area_def lineStringArea_outer4 lineStringArea_hole2 feval)
  have c: "Area [outer4] = Inr (Fin 16)"
    by (simp add: Area_def lineStringArea_outer4 idx_def)
  from Area_sign_by_holes [OF a] Area_sign_by_holes [OF b] Area_sign_by_holes [OF c] a b c
  show ?thesis by (simp add: lineStringArea_outer4 lineStringArea_hole2 fcompare)
qed

text \<open>
  C7. \<^verbatim>\<open>Area\<close> is claimed to be unchanged when the points of a ring are reversed. The
  terms of the reversed ring are the negated terms of the ring, added in another order,
  and float64 addition rounds: the closed triangle (2, 0), (0, \<open>- 2 ^ 53\<close>), (2, -1),
  (2, 0), the only ring of a polygon, has the area 0 (\<open>2 ^ 54 + 2\<close> rounds to
  \<open>2 ^ 54\<close>) and, reversed, the area 1.
\<close>

theorem Area_reversed_ring_counterexample:
  "\<not> (\<forall>p i. i < length p \<longrightarrow> Area (p[i := rev (p ! i)]) = Area p)"
proof
  assume a: "\<forall>p i. i < length p \<longrightarrow> Area (p[i := rev (p ! i)]) = Area p"
  have "Area [tallTriangle] = Inr (Fin 0)"
    by (simp add: Area_def idx_def lineStringArea_tallTriangle)
  moreover have "Area ([tallTriangle][0 := rev ([tallTriangle] ! 0)]) = Inr (Fin 1)"
    by (simp add: Area_def idx_def lineStringArea_rev_tallTriangle)
  ultimately show False using a [rule_format, of 0 "[tallTriangle]"] by simp
qed

text \<open>
  C7, amended. \<^verbatim>\<open>Area\<close> is unchanged when the points of one ring are reversed, if the
  coordinates of that ring are integers of magnitude at most \<open>B\<close> and the ring has \<open>n\<close>
  points with \<open>n * 2 * B * B < 2 ^ 53\<close>: then no operation of its sum rounds. The other
  rings of the polygon are arbitrary.
\<close>

theorem Area_reversed_ring_exact:
  assumes "i < length p" and "p ! i = zring zs" and "coordsWithin B zs" and "1 \<le> B"
    and "int (length zs) * (2 * B * B) < 2 ^ 53"
  shows "Area (p[i := rev (p ! i)]) = Area p"
proof -
  have "lineStringArea (rev (p ! i)) = lineStringArea (p ! i)"
    unfolding assms(2) using assms(3-5) by (rule lineStringArea_rev_zring)
  then have "map lineStringArea (p[i := rev (p ! i)]) = map lineStringArea p"
    using assms(1) by (simp add: map_update list_update_same_conv)
  then show ?thesis by (rule Area_map)
qed

theorem Area_reversed_ring_exact_witness:
  "(1::nat) < length [outer4, hole2] \<and>
   [outer4, hole2] ! 1 = zring [(1, 1), (3, 1), (3, 3), (1, 3), (1, 1)] \<and>
   coordsWithin 3 [(1, 1), (3, 1), (3, 3), (1, 3), (1, 1)] \<and>
   Area ([outer4, hole2][1 := rev ([outer4, hole2] ! 1)]) = Area [outer4, hole2]"
proof -
  have h1: "(1::nat) < length [outer4, hole2]" by simp
  have h2: "[outer4, hole2] ! 1 = zring [(1, 1), (3, 1), (3, 3), (1, 3), (1, 1)]"
    by (simp add: hole2_def zring_def)
  have h3: "coordsWithin 3 [(1, 1), (3, 1), (3, 3), (1, 3), (1, 1)]"
    by (simp add: coordsWithin_def)
  have h4: "(1::int) \<le> 3" by simp
  have h5: "int (length [(1::int, 1::int), (3, 1), (3, 3), (1, 3), (1, 1)]) * (2 * 3 * 3) < 2 ^ 53"
    by simp
  from Area_reversed_ring_exact [OF h1 h2 h3 h4 h5] h1 h2 h3 show ?thesis by blast
qed

text \<open>
  C8. The area of a ring is claimed to be 0, without a fault, for every empty or
  degenerate ring, in particular for rings of zero, one or two points. The ring without
  points has the area 0, and so has this ring of two points; for a ring of one point
  \<^verbatim>\<open>last\<close> is 0 and \<^verbatim>\<open>ls[last-1]\<close> panics.
\<close>

theorem lineStringArea_one_point_panics:
  "lineStringArea [] = Inr (Fin 0) \<and>
   lineStringArea [point] = Inl IndexOutOfRange \<and>
   lineStringArea [ipt 0 0, ipt 1 1] = Inr (Fin 0)"
  by (simp add: lineStringArea_def feval cong: let_weak_cong)

text \<open>
  C9. Let the rings of a polygon and a Point variable \<open>q\<close> be in the store. After
  \<^verbatim>\<open>Contains\<close>, \<^verbatim>\<open>Area\<close>, \<^verbatim>\<open>CentroidArea\<close>, \<^verbatim>\<open>DistanceFrom\<close> or \<^verbatim>\<open>WKT\<close>, called with the
  polygon and the point that \<open>q\<close> holds, the rings and \<open>q\<close> hold what they held, and the
  call returns what the function on values returns. The same holds for a call of
  \<^verbatim>\<open>rayIntersect\<close> with the point that \<open>q\<close> holds: the assignment to \<^verbatim>\<open>p[0]\<close> changes a
  cell that did not exist before the call.
\<close>

theorem inputs_not_modified:
  assumes "list_all (allocated \<sigma>) p" and "q < limit \<sigma>"
  shows "preserved \<sigma> p q (snd (Contains_s bc p (cells \<sigma> q) \<sigma>)) \<and>
         preserved \<sigma> p q (snd (Area_s p \<sigma>)) \<and>
         preserved \<sigma> p q (snd (CentroidArea_s p \<sigma>)) \<and>
         preserved \<sigma> p q (snd (DistanceFrom_s bc rd p (cells \<sigma> q) \<sigma>)) \<and>
         preserved \<sigma> p q (snd (WKT_s wktPoints p \<sigma>)) \<and>
         preserved \<sigma> p q (snd (rayIntersect_s (cells \<sigma> q) sv ev \<sigma>)) \<and>
         fst (Contains_s bc p (cells \<sigma> q) \<sigma>) = Contains bc (map (elems \<sigma>) p) (cells \<sigma> q) \<and>
         fst (Area_s p \<sigma>) = Area (map (elems \<sigma>) p) \<and>
         fst (CentroidArea_s p \<sigma>) = CentroidArea (map (elems \<sigma>) p) \<and>
         fst (DistanceFrom_s bc rd p (cells \<sigma> q) \<sigma>) =
           DistanceFrom bc rd (map (elems \<sigma>) p) (cells \<sigma> q) \<and>
         fst (WKT_s wktPoints p \<sigma>) = WKT wktPoints (map (elems \<sigma>) p) \<and>
         fst (rayIntersect_s (cells \<sigma> q) sv ev \<sigma>) = rayIntersect (cells \<sigma> q) sv ev"
proof -
  note P = frame_preserved [OF _ assms]
  note C = Contains_s_spec [OF assms(1), of bc "cells \<sigma> q"]
  note D = DistanceFrom_s_spec [OF assms(1), of bc rd "cells \<sigma> q"]
  note A = CentroidArea_s_spec [OF assms(1)]
  have r: "preserved \<sigma> p q \<sigma>" by (rule P) (rule frame_refl)
  have "preserved \<sigma> p q (snd (Contains_s bc p (cells \<sigma> q) \<sigma>))"
    using C by (intro P) simp
  moreover have "preserved \<sigma> p q (snd (CentroidArea_s p \<sigma>))"
    using A by (intro P) simp
  moreover have "preserved \<sigma> p q (snd (DistanceFrom_s bc rd p (cells \<sigma> q) \<sigma>))"
    using D by (intro P) simp
  moreover have "preserved \<sigma> p q (snd (rayIntersect_s (cells \<sigma> q) sv ev \<sigma>))"
    by (intro P) (rule rayIntersect_s_frame)
  ultimately show ?thesis
    using r C D A by (simp add: Area_s_def WKT_s_def rayIntersect_s_result)
qed

theorem inputs_not_modified_witness:
  "list_all (allocated exampleStore) [(0, 5), (5, 5)] \<and> 10 < limit exampleStore \<and>
   map (elems exampleStore) [(0, 5), (5, 5)] = [outer4, hole2] \<and>
   cells exampleStore 10 = ipt 0 2 \<and>
   preserved exampleStore [(0, 5), (5, 5)] 10
     (snd (Contains_s boundContains [(0, 5), (5, 5)] (ipt 0 2) exampleStore)) \<and>
   preserved exampleStore [(0, 5), (5, 5)] 10
     (snd (rayIntersect_s (ipt 0 2) (ipt 0 0) (ipt 0 0) exampleStore)) \<and>
   cells (snd (rayIntersect_s (ipt 0 2) (ipt 0 0) (ipt 0 0) exampleStore)) 11 =
     (Fin (2 powi (- 1074)), Fin 2)"
proof -
  have h1: "list_all (allocated exampleStore) [(0, 5), (5, 5)]"
    by (simp add: allocated_def exampleStore_def)
  have h2: "10 < limit exampleStore" by (simp add: exampleStore_def)
  have e: "map (elems exampleStore) [(0, 5), (5, 5)] = [outer4, hole2]"
    by (simp add: elems_def exampleStore_def outer4_def hole2_def upt_rec numeral_eq_Suc)
  have q: "cells exampleStore 10 = ipt 0 2"
    by (simp add: exampleStore_def outer4_def hole2_def numeral_eq_Suc)
  have n: "cells (snd (rayIntersect_s (ipt 0 2) (ipt 0 0) (ipt 0 0) exampleStore)) 11 =
      (Fin (2 powi (- 1074)), Fin 2)"
    by (simp add: rayIntersect_s_def rayIntersect_body_def alloc_def assign_def exchange_def
        nextUp_def fcompare ipt_def exampleStore_def Let_def)
  from inputs_not_modified [OF h1 h2, of boundContains ringDistance "\<lambda>ls. []" "ipt 0 0" "ipt 0 0"]
    h1 h2 e q n
  show ?thesis by simp
qed

text \<open>
  C10. There is a polygon with a single ring for which the area that \<^verbatim>\<open>CentroidArea\<close>
  returns is negative, while \<^verbatim>\<open>Area\<close> returns its absolute value: the square of side 4
  in clockwise order has the signed area -16 and the area 16.
\<close>

theorem CentroidArea_area_is_signed:
  "\<exists>ring c a. CentroidArea [ring] = Inr (c, a) \<and> flt a (Fin 0) \<and> Area [ring] = Inr (fabs a)"
proof -
  have "CentroidArea [rev outer4] = Inr ((Fin 2, Fin 2), Fin (- 16))"
    by (simp add: CentroidArea_def ringCentroid_rev_outer4 feval cong: let_weak_cong)
  moreover have "flt (Fin (- 16)) (Fin 0)"
    by (simp add: flt_def)
  moreover have "Area [rev outer4] = Inr (fabs (Fin (- 16)))"
    by (simp add: Area_def lineStringArea_rev_outer4 idx_def)
  ultimately show ?thesis by blast
qed

end
